theory Spec2Isabelle
  imports Complex_Main "HOL-Library.Word" "HOL-Library.Log_Nat"
begin

unbundle bit_operations_syntax

section \<open>Python values and built-ins the program relies on\<close>

text \<open>
  The resistor reader is Python: \<^verbatim>\<open>resit.py\<close> holds the detection pipeline and the
  command-line decoder, \<^verbatim>\<open>app.py\<close> the web handler. Python integers are unbounded
  (\<^typ>\<open>int\<close>), exceptions are values of \<open>py_error\<close> on the left of a sum.
\<close>

datatype py_error = ValueError | ZeroDivisionError | OverflowError | IndexError

subsection \<open>\<^verbatim>\<open>str\<close> of an int and \<^verbatim>\<open>int\<close> of a string\<close>

definition digit_char :: "nat \<Rightarrow> char" where
  "digit_char d = ''0123456789'' ! d"

fun str_nat :: "nat \<Rightarrow> string" where
  "str_nat n = (if n < 10 then [digit_char n] else str_nat (n div 10) @ [digit_char (n mod 10)])"

declare str_nat.simps [simp del]

definition py_str :: "int \<Rightarrow> string" where
  "py_str i = (if i < 0 then CHR ''-'' # str_nat (nat (- i)) else str_nat (nat i))"

definition digit_val :: "char \<Rightarrow> nat option" where
  "digit_val c = map_of (zip ''0123456789'' [0, 1, 2, 3, 4, 5, 6, 7, 8, 9]) c"

fun int_digits :: "int \<Rightarrow> string \<Rightarrow> py_error + int" where
  "int_digits acc [] = Inr acc"
| "int_digits acc (c # cs) =
     (case digit_val c of
        None \<Rightarrow> Inl ValueError
      | Some d \<Rightarrow> int_digits (10 * acc + int d) cs)"

text \<open>
  \<^verbatim>\<open>int(s)\<close> in base ten: an optional sign, then at least one decimal digit. Every string
  the program hands to \<^verbatim>\<open>int\<close> is a concatenation of \<^verbatim>\<open>str\<close> of integers, hence made
  of \<^verbatim>\<open>-\<close> and digits only; on any other character the model answers \<open>ValueError\<close>
  (CPython also tolerates surrounding blanks and single underscores between digits, which
  \<^verbatim>\<open>str\<close> never produces, and can cap the length of such strings; neither is modelled).
\<close>

definition py_int :: "string \<Rightarrow> py_error + int" where
  "py_int s =
     (case s of
        [] \<Rightarrow> Inl ValueError
      | c # cs \<Rightarrow>
          if c = CHR ''-'' then
            (if cs = [] then Inl ValueError else map_sum id uminus (int_digits 0 cs))
          else if c = CHR ''+'' then
            (if cs = [] then Inl ValueError else int_digits 0 cs)
          else int_digits 0 s)"

subsection \<open>Binary64 floating point\<close>

text \<open>
  A Python \<^verbatim>\<open>float\<close> is an IEEE 754 binary64 number. A finite one is a rational, and
  literals, \<^verbatim>\<open>float(n)\<close>, \<^verbatim>\<open>*\<close> and \<^verbatim>\<open>/\<close> return the exact result rounded to the nearest
  number with a 53-bit significand, ties to the even significand. \<open>fl\<close> is that rounding.
  The exponent is left unbounded: overflow to infinity and subnormal numbers are not
  modelled, the sizes and ratios of this program being far from both.
\<close>

definition expo :: "rat \<Rightarrow> int" where
  \<comment> \<open>for \<open>0 < x\<close>: the \<open>e\<close> with \<open>2 ^ e \<le> x < 2 ^ (e + 1)\<close>\<close>
  "expo x = (if 1 \<le> x then bitlen \<lfloor>x\<rfloor> - 1 else - bitlen (\<lceil>1 / x\<rceil> - 1))"

definition rnd_even :: "rat \<Rightarrow> int" where
  "rnd_even z =
     (let f = \<lfloor>z\<rfloor>; r = z - of_int f in
      if r < 1 / 2 then f else if 1 / 2 < r then f + 1 else if even f then f else f + 1)"

definition fl :: "rat \<Rightarrow> rat" where
  "fl x =
     (if x = 0 then 0
      else let q = 2 powi (expo \<bar>x\<bar> - 52) in sgn x * of_int (rnd_even (\<bar>x\<bar> / q)) * q)"

definition py_float :: "int \<Rightarrow> rat" where
  \<comment> \<open>\<^verbatim>\<open>float(n)\<close>, also the conversion of an int operand next to a float one\<close>
  "py_float n = fl (of_int n)"

definition float_mul :: "rat \<Rightarrow> rat \<Rightarrow> rat" where
  "float_mul a b = fl (a * b)"

definition float_quot :: "rat \<Rightarrow> rat \<Rightarrow> rat" where
  \<comment> \<open>\<^verbatim>\<open>a / b\<close> for a divisor already known to be nonzero\<close>
  "float_quot a b = fl (a / b)"

definition py_truediv :: "rat \<Rightarrow> rat \<Rightarrow> py_error + rat" where
  "py_truediv a b = (if b = 0 then Inl ZeroDivisionError else Inr (float_quot a b))"

definition int_of_float :: "rat \<Rightarrow> int" where
  \<comment> \<open>\<^verbatim>\<open>int(x)\<close> truncates towards zero\<close>
  "int_of_float x = (if 0 \<le> x then \<lfloor>x\<rfloor> else \<lceil>x\<rceil>)"

definition lit_0_40 :: rat where
  \<comment> \<open>the literal \<^verbatim>\<open>0.40\<close>\<close>
  "lit_0_40 = fl (2 / 5)"

definition lit_0_0005 :: rat where
  \<comment> \<open>the literal \<^verbatim>\<open>0.0005\<close>\<close>
  "lit_0_0005 = fl (1 / 2000)"

definition unit_roundoff :: rat where
  \<comment> \<open>the largest relative error of one rounding\<close>
  "unit_roundoff = 1 / 2 ^ 53"

subsection \<open>Numbers produced by the decoder\<close>

text \<open>
  \<^verbatim>\<open>10 ** e\<close> is an int for \<open>0 \<le> e\<close> and a float for \<open>e < 0\<close>. The float's bits come from
  the platform's \<^verbatim>\<open>pow\<close>, so the model records the operands of such a product without
  computing it. Multiplying an int by a float first converts the int, which raises
  \<open>OverflowError\<close> when it rounds to \<open>2 ^ 1024\<close> or beyond.
\<close>

datatype pynum =
    PyInt int
  | PyFloatProd int int  \<comment> \<open>\<^verbatim>\<open>base * 10 ** e\<close> with \<open>e < 0\<close>, a float\<close>

definition mul_pow10 :: "int \<Rightarrow> int \<Rightarrow> py_error + pynum" where
  "mul_pow10 base e =
     (if 0 \<le> e then Inr (PyInt (base * 10 ^ nat e))
      else if 2 ^ 1024 - 2 ^ 970 \<le> \<bar>base\<bar> then Inl OverflowError
      else Inr (PyFloatProd base e))"

text \<open>
  Python's \<^verbatim>\<open>sorted\<close> is ascending in the key and stable. A stable sort has one possible
  result, so insertion by key stands for it.
\<close>

definition py_sorted :: "('a \<Rightarrow> int) \<Rightarrow> 'a list \<Rightarrow> 'a list" where
  "py_sorted key xs = sort_key key xs"

section \<open>\<^verbatim>\<open>resit.py\<close>: taxonomy and configuration\<close>

type_synonym triple = "int \<times> int \<times> int"

text \<open>An entry of \<^verbatim>\<open>Colour_Range\<close> is the list \<^verbatim>\<open>[lower, upper, name, digit, display]\<close>.\<close>

record colour =
  lower :: triple
  upper :: triple
  name :: string
  digit :: int
  display :: triple

definition Colour_Range :: "colour list" where
  "Colour_Range =
    [\<lparr>lower = (0, 0, 0), upper = (255, 255, 20), name = ''BLACK'', digit = 0, display = (0, 0, 0)\<rparr>,
     \<lparr>lower = (0, 90, 10), upper = (15, 250, 100), name = ''BROWN'', digit = 1, display = (0, 51, 102)\<rparr>,
     \<lparr>lower = (0, 30, 80), upper = (10, 255, 200), name = ''RED'', digit = 2, display = (0, 0, 255)\<rparr>,
     \<lparr>lower = (5, 150, 150), upper = (15, 235, 250), name = ''ORANGE'', digit = 3, display = (0, 128, 255)\<rparr>,
     \<lparr>lower = (50, 100, 100), upper = (70, 255, 255), name = ''YELLOW'', digit = 4, display = (0, 255, 255)\<rparr>,
     \<lparr>lower = (45, 100, 50), upper = (75, 255, 255), name = ''GREEN'', digit = 5, display = (0, 255, 0)\<rparr>,
     \<lparr>lower = (100, 150, 0), upper = (140, 255, 255), name = ''BLUE'', digit = 6, display = (255, 0, 0)\<rparr>,
     \<lparr>lower = (120, 40, 100), upper = (140, 250, 220), name = ''VIOLET'', digit = 7, display = (255, 0, 127)\<rparr>,
     \<lparr>lower = (0, 0, 50), upper = (179, 50, 80), name = ''GRAY'', digit = 8, display = (128, 128, 128)\<rparr>,
     \<lparr>lower = (0, 0, 90), upper = (179, 15, 250), name = ''WHITE'', digit = 9, display = (255, 255, 255)\<rparr>]"

definition Red_top_low :: triple where
  "Red_top_low = (160, 30, 80)"

definition Red_top_high :: triple where
  "Red_top_high = (179, 255, 200)"

definition hue_range :: "triple \<Rightarrow> triple \<Rightarrow> int set" where
  \<comment> \<open>the hues between the first components of two bounds, both included\<close>
  "hue_range lo hi = {fst lo .. fst hi}"

record Config =
  max_dim :: int
  blur :: string
  gaussian_ksize :: int
  bilateral_d :: int
  bilateral_sigma_color :: int
  bilateral_sigma_space :: int
  use_adaptive :: bool
  adaptive_block_size :: int
  adaptive_C :: int
  morph_kernel :: int
  min_area :: int
  debug :: bool

definition Config_default :: Config where
  \<comment> \<open>\<^verbatim>\<open>Config()\<close>\<close>
  "Config_default =
     \<lparr>max_dim = 900, blur = ''gaussian'', gaussian_ksize = 7, bilateral_d = 9,
      bilateral_sigma_color = 75, bilateral_sigma_space = 75, use_adaptive = False,
      adaptive_block_size = 51, adaptive_C = 2, morph_kernel = 3, min_area = 0,
      debug = False\<rparr>"

section \<open>\<^verbatim>\<open>resit.py\<close>: preprocessing and region of interest\<close>

text \<open>\<^verbatim>\<open>_estimate_min_area\<close>; \<open>h\<close> and \<open>w\<close> are the shape of the processed image.\<close>

definition estimate_min_area :: "int \<Rightarrow> int \<Rightarrow> Config \<Rightarrow> int" where
  "estimate_min_area h w cfg =
     (if min_area cfg > 0 then min_area cfg
      else max 50 (int_of_float (float_mul (float_mul lit_0_0005 (py_float h)) (py_float w))))"

text \<open>
  OpenCV does the pixel work. What the Python decides is which OpenCV functions run, in
  which order and with which arguments, so \<^verbatim>\<open>_preprocess\<close> and \<^verbatim>\<open>_resistor_roi_mask\<close> are
  modelled by the calls they issue. Image arguments are left out of a call; the remaining
  arguments are kept.
\<close>

datatype kernel = MORPH_RECT int int  \<comment> \<open>\<^verbatim>\<open>getStructuringElement(MORPH_RECT, (cols, rows))\<close>\<close>

datatype cv_call =
    Resize int int  \<comment> \<open>\<^verbatim>\<open>dsize = (width, height)\<close>, \<^verbatim>\<open>INTER_AREA\<close>\<close>
  | BilateralFilter int int int
  | GaussianBlur int int  \<comment> \<open>\<^verbatim>\<open>ksize\<close>; sigma 0\<close>
  | CvtColor_BGR2GRAY
  | CvtColor_BGR2HSV
  | AdaptiveThreshold int int  \<comment> \<open>block size and constant; 255, mean, binary\<close>
  | Threshold_Otsu
  | Bitwise_not
  | Canny int int
  | Bitwise_or
  | MorphologyEx_CLOSE kernel nat  \<comment> \<open>kernel and iterations\<close>
  | FindContours_EXTERNAL

text \<open>
  \<^verbatim>\<open>_preprocess\<close> on an image of shape \<open>(h, w)\<close>: the calls issued and the shape of the
  processed image, which is \<^verbatim>\<open>dsize\<close> reversed after a resize.
\<close>

definition preprocess :: "int \<Rightarrow> int \<Rightarrow> Config \<Rightarrow> py_error + (cv_call list \<times> int \<times> int)" where
  "preprocess h w cfg =
     (case
        (if max_dim cfg \<noteq> 0 \<and> max h w > max_dim cfg then
           (case py_truediv (py_float (max_dim cfg)) (py_float (max h w)) of
              Inl e \<Rightarrow> Inl e
            | Inr scale \<Rightarrow>
                let w' = int_of_float (float_mul (py_float w) scale);
                    h' = int_of_float (float_mul (py_float h) scale)
                in Inr ([Resize w' h'], h', w'))
         else Inr ([], h, w))
      of
        Inl e \<Rightarrow> Inl e
      | Inr (resized, h', w') \<Rightarrow>
          let blurred =
                (if blur cfg = ''bilateral'' then
                   [BilateralFilter (bilateral_d cfg) (bilateral_sigma_color cfg)
                      (bilateral_sigma_space cfg)]
                 else let k = max 3 (gaussian_ksize cfg OR 1) in [GaussianBlur k k]);
              th =
                (if use_adaptive cfg then
                   let b = max 3 (adaptive_block_size cfg OR 1)
                   in [AdaptiveThreshold b (adaptive_C cfg)]
                 else [Threshold_Otsu])
          in Inr (resized @ blurred @ [CvtColor_BGR2GRAY, CvtColor_BGR2HSV] @ th @ [Bitwise_not],
                  h', w'))"

text \<open>
  \<^verbatim>\<open>_resistor_roi_mask\<close> up to the extraction of contours (lines 92 to 99); the choice of
  the best contour that follows works on OpenCV's results.
\<close>

definition resistor_roi_mask :: "Config \<Rightarrow> cv_call list" where
  "resistor_roi_mask cfg =
     (let k = max 3 (morph_kernel cfg);
          kernel = MORPH_RECT k k
      in [Canny 50 150, Bitwise_or, MorphologyEx_CLOSE kernel 2, FindContours_EXTERNAL])"

section \<open>\<^verbatim>\<open>resit.py\<close>: colour segmentation and band ordering\<close>

text \<open>
  An image is a list of rows of pixels. An HSV pixel holds three bytes; a mask holds a
  byte for each pixel, 255 where it is on and 0 where it is off.
\<close>

type_synonym 'a image = "'a list list"
type_synonym hsv = "8 word \<times> 8 word \<times> 8 word"
type_synonym mask = "8 word image"

definition shape :: "'a image \<Rightarrow> int \<times> int" where
  \<comment> \<open>\<^verbatim>\<open>img.shape[:2]\<close>: rows, then columns\<close>
  "shape img = (int (length img), (case img of [] \<Rightarrow> 0 | row # _ \<Rightarrow> int (length row)))"

definition inRange_px :: "hsv \<Rightarrow> triple \<Rightarrow> triple \<Rightarrow> 8 word" where
  "inRange_px px lo hi =
     (case px of (h, s, v) \<Rightarrow> (case lo of (lh, ls, lv) \<Rightarrow> (case hi of (hh, hs, hv) \<Rightarrow>
        if lh \<le> uint h \<and> uint h \<le> hh \<and> ls \<le> uint s \<and> uint s \<le> hs \<and> lv \<le> uint v \<and> uint v \<le> hv
        then 255 else 0)))"

definition inRange :: "hsv image \<Rightarrow> triple \<Rightarrow> triple \<Rightarrow> mask" where
  "inRange img lo hi = map (map (\<lambda>px. inRange_px px lo hi)) img"

definition bitwise_or :: "mask \<Rightarrow> mask \<Rightarrow> mask" where
  "bitwise_or a b = map2 (map2 (OR)) a b"

definition bitwise_and :: "mask \<Rightarrow> mask \<Rightarrow> mask" where
  "bitwise_and a b = map2 (map2 (AND)) a b"

text \<open>
  A contour as \<^verbatim>\<open>cv.findContours\<close> returns it: its points \<open>(x, y)\<close>, with what
  \<^verbatim>\<open>cv.contourArea\<close> and \<^verbatim>\<open>cv.boundingRect\<close> answer for it (a float, and \<open>(x, y, w, h)\<close>).
\<close>

record contour =
  points :: "(int \<times> int) list"
  contourArea :: rat
  boundingRect :: "int \<times> int \<times> int \<times> int"

text \<open>The two OpenCV functions of the colour loop whose results are taken as given.\<close>

record cv_ops =
  morph_open :: "kernel \<Rightarrow> mask \<Rightarrow> mask"  \<comment> \<open>\<^verbatim>\<open>morphologyEx(mask, MORPH_OPEN, kernel, iterations=1)\<close>\<close>
  find_contours :: "mask \<Rightarrow> contour list"  \<comment> \<open>\<^verbatim>\<open>findContours(mask, RETR_EXTERNAL, CHAIN_APPROX_SIMPLE)\<close>\<close>

definition validContours :: "contour \<Rightarrow> int \<Rightarrow> bool" where
  "validContours cont min_a =
     (if contourArea cont < of_int min_a then False
      else (case boundingRect cont of (x, y, w, h) \<Rightarrow>
        if h = 0 then False
        else if lit_0_40 < float_quot (py_float w) (py_float h) then False
        else True))"

text \<open>A band is the tuple \<^verbatim>\<open>lmp + tuple(clr[2:])\<close>: \<open>(x, y, name, digit, display)\<close>.\<close>

record band =
  band_x :: int
  band_y :: int
  band_name :: string
  band_digit :: int
  band_display :: triple

fun leftmost_from :: "int \<times> int \<Rightarrow> (int \<times> int) list \<Rightarrow> int \<times> int" where
  "leftmost_from best [] = best"
| "leftmost_from best (p # ps) =
     (if fst p < fst best then leftmost_from p ps else leftmost_from best ps)"

definition leftmost :: "(int \<times> int) list \<Rightarrow> py_error + (int \<times> int)" where
  \<comment> \<open>\<^verbatim>\<open>cont[np.argmin(cont[:, :, 0])][0]\<close>: the first point of least x; \<^verbatim>\<open>argmin\<close> of nothing raises\<close>
  "leftmost pts = (case pts of [] \<Rightarrow> Inl ValueError | p # ps \<Rightarrow> Inr (leftmost_from p ps))"

definition mk_band :: "int \<times> int \<Rightarrow> colour \<Rightarrow> band" where
  "mk_band lmp clr =
     \<lparr>band_x = fst lmp, band_y = snd lmp, band_name = name clr, band_digit = digit clr,
      band_display = display clr\<rparr>"

text \<open>The inner loop over the contours of one colour, appending to \<^verbatim>\<open>bandpos\<close>.\<close>

fun collect_bands :: "colour \<Rightarrow> int \<Rightarrow> band list \<Rightarrow> contour list \<Rightarrow> py_error + band list" where
  "collect_bands clr min_a bandpos [] = Inr bandpos"
| "collect_bands clr min_a bandpos (cont # conts) =
     (if \<not> validContours cont min_a then collect_bands clr min_a bandpos conts
      else (case leftmost (points cont) of
        Inl e \<Rightarrow> Inl e
      | Inr lmp \<Rightarrow> collect_bands clr min_a (bandpos @ [mk_band lmp clr]) conts))"

definition colour_mask :: "hsv image \<Rightarrow> colour \<Rightarrow> mask" where
  \<comment> \<open>lines 134 and 142 to 144\<close>
  "colour_mask img_hsv clr =
     (let pre_red_mask = inRange img_hsv Red_top_low Red_top_high;
          mask = inRange img_hsv (lower clr) (upper clr)
      in if name clr = ''RED'' then bitwise_or pre_red_mask mask else mask)"

definition band_contours :: "cv_ops \<Rightarrow> hsv image \<Rightarrow> mask \<Rightarrow> mask \<Rightarrow> Config \<Rightarrow> colour \<Rightarrow> contour list" where
  \<comment> \<open>lines 142 to 153: from the colour's mask to its contours\<close>
  "band_contours cv img_hsv thresh roi_mask cfg clr =
     (let kernel = MORPH_RECT (morph_kernel cfg) (morph_kernel cfg);
          mask = colour_mask img_hsv clr;
          mask = bitwise_and mask thresh;
          mask = bitwise_and mask roi_mask;
          mask = (if morph_kernel cfg > 1 then morph_open cv kernel mask else mask)
      in find_contours cv mask)"

text \<open>The outer loop over \<^verbatim>\<open>Colour_Range\<close>.\<close>

fun detect :: "cv_ops \<Rightarrow> hsv image \<Rightarrow> mask \<Rightarrow> mask \<Rightarrow> Config \<Rightarrow> int \<Rightarrow> band list \<Rightarrow> colour list
    \<Rightarrow> py_error + band list" where
  "detect cv img_hsv thresh roi_mask cfg min_a bandpos [] = Inr bandpos"
| "detect cv img_hsv thresh roi_mask cfg min_a bandpos (clr # clrs) =
     (case collect_bands clr min_a bandpos (band_contours cv img_hsv thresh roi_mask cfg clr) of
        Inl e \<Rightarrow> Inl e
      | Inr bandpos' \<Rightarrow> detect cv img_hsv thresh roi_mask cfg min_a bandpos' clrs)"

text \<open>
  \<^verbatim>\<open>findBands\<close> from line 128 on. \<open>img_hsv\<close> and \<open>thresh\<close> are what \<^verbatim>\<open>_preprocess\<close> returned
  and \<open>roi_mask\<close> what \<^verbatim>\<open>_resistor_roi_mask\<close> returned; the processed image has the shape
  of \<open>img_hsv\<close>.
\<close>

definition findBands :: "cv_ops \<Rightarrow> hsv image \<Rightarrow> mask \<Rightarrow> mask \<Rightarrow> Config \<Rightarrow> py_error + band list" where
  "findBands cv img_hsv thresh roi_mask cfg =
     (case shape img_hsv of (h, w) \<Rightarrow>
        let min_a = estimate_min_area h w cfg in
        (case detect cv img_hsv thresh roi_mask cfg min_a [] Colour_Range of
           Inl e \<Rightarrow> Inl e
         | Inr bandpos \<Rightarrow> Inr (py_sorted band_x bandpos)))"

section \<open>Decoding: \<^verbatim>\<open>displayResults\<close> and \<^verbatim>\<open>analyze\<close>\<close>

definition py_last :: "'a list \<Rightarrow> py_error + 'a" where
  \<comment> \<open>\<^verbatim>\<open>xs[-1]\<close>\<close>
  "py_last xs = (if xs = [] then Inl IndexError else Inr (last xs))"

text \<open>
  \<^verbatim>\<open>displayResults\<close> prints at most one line; the model returns the numbers printed.
\<close>

definition displayResults :: "band list \<Rightarrow> py_error + pynum list" where
  "displayResults sortedbands =
     (let strvalue = [] in
      if length sortedbands \<in> {3, 4, 5} then
        let strvalue = foldl (\<lambda>s b. s @ py_str (band_digit b)) strvalue (butlast sortedbands) in
        (case py_int strvalue of
           Inl e \<Rightarrow> Inl e
         | Inr intvalue \<Rightarrow>
             (case py_last sortedbands of
                Inl e \<Rightarrow> Inl e
              | Inr b \<Rightarrow>
                  (case mul_pow10 intvalue (band_digit b) of
                     Inl e \<Rightarrow> Inl e
                   | Inr intvalue \<Rightarrow> Inr [intvalue])))
      else Inr [])"

record band_json =
  json_x :: int
  json_y :: int
  json_color :: string
  json_digit :: int

record analysis =
  bands :: "band_json list"
  value_ohms :: "pynum option"

text \<open>
  \<^verbatim>\<open>analyze\<close> of \<^verbatim>\<open>app.py\<close> from line 58 on, \<open>bs\<close> being the list \<^verbatim>\<open>findBands\<close> returned.
  The \<^verbatim>\<open>try\<close> turns any exception of the product into \<^verbatim>\<open>None\<close>.
\<close>

definition analyze :: "band list \<Rightarrow> analysis" where
  "analyze bs =
     (let value_ohms =
            (if length bs \<in> {3, 4, 5} then
               let digits = concat (map (\<lambda>b. py_str (band_digit b)) (butlast bs)) in
               (case
                  (case py_int digits of
                     Inl e \<Rightarrow> Inl e
                   | Inr base \<Rightarrow>
                       (case py_last bs of
                          Inl e \<Rightarrow> Inl e
                        | Inr b \<Rightarrow> mul_pow10 base (band_digit b)))
                of
                  Inl e \<Rightarrow> None
                | Inr v \<Rightarrow> Some v)
             else None);
          band_list =
            map (\<lambda>b. \<lparr>json_x = band_x b, json_y = band_y b, json_color = band_name b,
                       json_digit = band_digit b\<rparr>) bs
      in \<lparr>bands = band_list, value_ohms = value_ohms\<rparr>)"

section \<open>The claims' own notions\<close>

text \<open>
  The decimal integer that a sequence of digits spells, the leftmost digit being the most
  significant one.
\<close>

definition decimal_value :: "int list \<Rightarrow> int" where
  "decimal_value ds = foldl (\<lambda>acc d. 10 * acc + d) 0 ds"

text \<open>
  The candidate bands in the order of detection: the colours in the order of the
  taxonomy and, for each colour, its valid contours in the order OpenCV lists them.
\<close>

definition band_of :: "colour \<Rightarrow> contour \<Rightarrow> band" where
  "band_of clr cont = (case leftmost (points cont) of Inr lmp \<Rightarrow> mk_band lmp clr | Inl e \<Rightarrow> mk_band (0, 0) clr)"

definition detection_order :: "cv_ops \<Rightarrow> hsv image \<Rightarrow> mask \<Rightarrow> mask \<Rightarrow> Config \<Rightarrow> band list" where
  "detection_order cv img_hsv thresh roi_mask cfg =
     (case shape img_hsv of (h, w) \<Rightarrow>
        concat (map (\<lambda>clr. map (band_of clr)
                      (filter (\<lambda>cont. validContours cont (estimate_min_area h w cfg))
                         (band_contours cv img_hsv thresh roi_mask cfg clr)))
                  Colour_Range))"

section \<open>Sample inputs\<close>

definition p4_bands :: "band list" where
  "p4_bands =
     [mk_band (10, 5) (Colour_Range ! 2), mk_band (20, 5) (Colour_Range ! 2),
      mk_band (30, 5) (Colour_Range ! 0), mk_band (40, 5) (Colour_Range ! 3)]"

definition two_bands :: "band list" where
  "two_bands = [mk_band (10, 5) (Colour_Range ! 2), mk_band (20, 5) (Colour_Range ! 0)]"

definition bad_bands :: "band list" where
  "bad_bands =
     [mk_band (10, 5) (Colour_Range ! 2),
      \<lparr>band_x = 20, band_y = 5, band_name = ''RED'', band_digit = - 1, band_display = (0, 0, 255)\<rparr>,
      mk_band (30, 5) (Colour_Range ! 0), mk_band (40, 5) (Colour_Range ! 3)]"

definition cfg_small_sizes :: Config where
  "cfg_small_sizes =
     Config_default\<lparr>gaussian_ksize := - 4, use_adaptive := True, adaptive_block_size := 2\<rparr>"

definition img_w :: "hsv image" where
  "img_w = [[(170, 100, 100), (5, 100, 100)]]"

definition c_band :: contour where
  "c_band = \<lparr>points = [(12, 3), (10, 4), (10, 8), (13, 9)], contourArea = 120, boundingRect = (10, 3, 4, 12)\<rparr>"

definition c_smear :: contour where
  "c_smear = \<lparr>points = [(1, 1), (9, 1)], contourArea = 60, boundingRect = (1, 1, 9, 1)\<rparr>"

definition cv_w :: cv_ops where
  "cv_w = \<lparr>morph_open = (\<lambda>k m. m),
           find_contours = (\<lambda>m. if 255 \<in> set (concat m) then [c_smear, c_band] else [])\<rparr>"

section \<open>Rounding to binary64\<close>

lemma bitlen_pos: "0 < n \<Longrightarrow> 1 \<le> bitlen n"
  using bitlen_eq_zero_iff [of n] bitlen_nonneg [of n] by linarith

lemma bitlen_bounds_nat:
  assumes "0 < n"
  shows "2 ^ nat (bitlen n - 1) \<le> n \<and> n < 2 ^ Suc (nat (bitlen n - 1))"
proof -
  have "nat (bitlen n) = Suc (nat (bitlen n - 1))"
    using bitlen_pos [OF assms] by simp
  then show ?thesis
    using bitlen_bounds [OF assms] by simp
qed

lemma expo_bounds:
  assumes "0 < x"
  shows "2 powi (expo x) \<le> x \<and> x < 2 powi (expo x + 1)"
proof (cases "1 \<le> x")
  case True
  define n where "n = \<lfloor>x\<rfloor>"
  define K where "K = nat (bitlen n - 1)"
  have n1: "1 \<le> n"
    using True by (simp add: n_def le_floor_iff)
  then have b: "2 ^ K \<le> n \<and> n < 2 ^ Suc K"
    using bitlen_bounds_nat [of n] by (simp add: K_def)
  have e: "expo x = int K"
    using True bitlen_pos [of n] n1 by (simp add: expo_def n_def K_def)
  have "(2 :: rat) ^ K = of_int (2 ^ K)"
    by simp
  also have "\<dots> \<le> of_int n"
    using b by (simp only: of_int_le_iff)
  also have "of_int n \<le> x"
    by (simp add: n_def)
  finally have lo: "(2 :: rat) ^ K \<le> x" .
  have "x < of_int n + 1"
    unfolding n_def by linarith
  moreover have "(of_int (n + 1) :: rat) \<le> of_int (2 ^ Suc K)"
    using b by (simp only: of_int_le_iff) simp
  moreover have "(of_int (n + 1) :: rat) = of_int n + 1" and "(of_int (2 ^ Suc K) :: rat) = 2 ^ Suc K"
    by simp_all
  ultimately have hi: "x < (2 :: rat) ^ Suc K"
    by linarith
  have "int K + 1 = int (Suc K)"
    by simp
  then have "(2 :: rat) powi (int K + 1) = 2 ^ Suc K"
    by (simp only: power_int_of_nat)
  then show ?thesis
    using lo hi unfolding e by simp
next
  case False
  define y where "y = 1 / x"
  define m where "m = \<lceil>y\<rceil>"
  define K where "K = nat (bitlen (m - 1) - 1)"
  have x1: "x < 1"
    using False by simp
  have y1: "1 < y"
    using assms x1 by (simp add: y_def)
  then have m2: "2 \<le> m"
    unfolding m_def by linarith
  then have b: "2 ^ K \<le> m - 1 \<and> m - 1 < 2 ^ Suc K"
    using bitlen_bounds_nat [of "m - 1"] by (simp add: K_def)
  have e: "expo x = - int (Suc K)"
    using False bitlen_pos [of "m - 1"] m2 by (simp add: expo_def m_def y_def K_def)
  have ym: "y \<le> of_int m" and my: "of_int m - 1 < y"
    unfolding m_def by linarith+
  have "(of_int m :: rat) \<le> of_int (2 ^ Suc K)"
    using b by (simp only: of_int_le_iff) simp
  moreover have "(of_int (2 ^ Suc K) :: rat) = 2 ^ Suc K"
    by simp
  ultimately have yhi: "y \<le> 2 ^ Suc K"
    using ym by linarith
  have "(of_int (2 ^ K) :: rat) \<le> of_int (m - 1)"
    using b by (simp only: of_int_le_iff)
  moreover have "(of_int (2 ^ K) :: rat) = 2 ^ K" and "(of_int (m - 1) :: rat) = of_int m - 1"
    by simp_all
  ultimately have ylo: "2 ^ K < y"
    using my by linarith
  have xy: "x = 1 / y"
    by (simp add: y_def)
  have ypos: "0 < y"
    using y1 by simp
  have lo: "1 / 2 ^ Suc K \<le> x"
    unfolding xy using yhi ypos by (simp add: field_simps)
  have hi: "x < 1 / 2 ^ K"
    unfolding xy using ylo ypos by (simp add: field_simps)
  have p1: "(2 :: rat) powi (- int (Suc K)) = 1 / 2 ^ Suc K"
    by (simp only: power_int_minus_divide power_int_of_nat)
  have "- int (Suc K) + 1 = - int K"
    by simp
  then have p2: "(2 :: rat) powi (- int (Suc K) + 1) = 1 / 2 ^ K"
    by (simp only: power_int_minus_divide power_int_of_nat)
  show ?thesis
    unfolding e p1 p2 using lo hi by simp
qed

lemma expo_mono:
  assumes "0 < x" and "x \<le> y"
  shows "expo x \<le> expo y"
proof (rule ccontr)
  assume "\<not> expo x \<le> expo y"
  then have "expo y + 1 \<le> expo x"
    by simp
  then have "(2 :: rat) powi (expo y + 1) \<le> 2 powi (expo x)"
    by (intro power_int_increasing) simp_all
  moreover have "2 powi (expo x) \<le> x"
    using expo_bounds [OF assms(1)] by simp
  moreover have "y < 2 powi (expo y + 1)"
    using expo_bounds [of y] assms by simp
  ultimately show False
    using assms(2) by linarith
qed

lemma rnd_even_cases: "rnd_even z = \<lfloor>z\<rfloor> \<or> rnd_even z = \<lfloor>z\<rfloor> + 1"
  by (simp add: rnd_even_def Let_def)

lemma rnd_even_of_int: "rnd_even (of_int n) = n"
  by (simp add: rnd_even_def)

lemma rnd_even_err: "\<bar>of_int (rnd_even z) - z\<bar> \<le> 1 / 2"
proof -
  have "of_int \<lfloor>z\<rfloor> \<le> z" and "z < of_int \<lfloor>z\<rfloor> + 1"
    by linarith+
  then show ?thesis
    by (auto simp: rnd_even_def Let_def)
qed

lemma rnd_even_mono:
  assumes "z \<le> z'"
  shows "rnd_even z \<le> rnd_even z'"
proof (cases "\<lfloor>z\<rfloor> = \<lfloor>z'\<rfloor>")
  case True
  then show ?thesis
    using assms by (auto simp: rnd_even_def Let_def)
next
  case False
  then have "\<lfloor>z\<rfloor> + 1 \<le> \<lfloor>z'\<rfloor>"
    using floor_mono [OF assms] by simp
  then show ?thesis
    using rnd_even_cases [of z] rnd_even_cases [of z'] by linarith
qed

lemma fl_pos:
  "0 < x \<Longrightarrow> fl x = of_int (rnd_even (x / 2 powi (expo x - 52))) * 2 powi (expo x - 52)"
  by (simp add: fl_def Let_def)

lemma quantum:
  "(2 :: rat) powi (e - 52) = 2 powi e / 2 ^ 52"
  by (simp add: power_int_diff)

lemma fl_err:
  assumes "0 < x"
  shows "\<bar>fl x - x\<bar> \<le> x / 2 ^ 53"
proof -
  define q :: rat where "q = 2 powi (expo x - 52)"
  have q0: "0 < q"
    by (simp add: q_def)
  have "fl x - x = (of_int (rnd_even (x / q)) - x / q) * q"
    using q0 by (simp add: fl_pos [OF assms] q_def [symmetric] algebra_simps)
  then have "\<bar>fl x - x\<bar> = \<bar>of_int (rnd_even (x / q)) - x / q\<bar> * q"
    using q0 by (simp add: abs_mult)
  also have "\<dots> \<le> 1 / 2 * q"
    using rnd_even_err [of "x / q"] q0 by (intro mult_right_mono) simp_all
  also have "1 / 2 * q = 2 powi (expo x) / 2 ^ 53"
    by (simp add: q_def quantum)
  also have "\<dots> \<le> x / 2 ^ 53"
    using expo_bounds [OF assms] by (simp add: divide_right_mono)
  finally show ?thesis .
qed

lemma fl_range:
  assumes "0 < x"
  shows "2 powi (expo x) \<le> fl x \<and> fl x \<le> 2 powi (expo x + 1)"
proof -
  define q :: rat where "q = 2 powi (expo x - 52)"
  have q0: "0 < q"
    by (simp add: q_def)
  have qe: "q * 2 ^ 52 = 2 powi (expo x)"
    by (simp add: q_def quantum)
  have qe1: "q * 2 ^ 53 = 2 powi (expo x + 1)"
    by (simp add: q_def quantum power_int_add)
  have "of_int (2 ^ 52) * q \<le> x"
    using expo_bounds [OF assms] qe by (simp add: mult.commute)
  then have "of_int (2 ^ 52) \<le> x / q"
    using q0 by (simp add: pos_le_divide_eq)
  then have "rnd_even (of_int (2 ^ 52)) \<le> rnd_even (x / q)"
    by (rule rnd_even_mono)
  then have "(2 :: int) ^ 52 \<le> rnd_even (x / q)"
    by (simp only: rnd_even_of_int)
  then have "(of_int (2 ^ 52) :: rat) \<le> of_int (rnd_even (x / q))"
    by (simp only: of_int_le_iff)
  then have "of_int (2 ^ 52) * q \<le> of_int (rnd_even (x / q)) * q"
    using q0 by (intro mult_right_mono) simp_all
  then have lo: "2 powi (expo x) \<le> fl x"
    using qe by (simp add: fl_pos [OF assms] q_def [symmetric] mult.commute)
  have "x \<le> of_int (2 ^ 53) * q"
    using expo_bounds [OF assms] qe1 by (simp add: mult.commute)
  then have "x / q \<le> of_int (2 ^ 53)"
    using q0 by (simp add: pos_divide_le_eq)
  then have "rnd_even (x / q) \<le> rnd_even (of_int (2 ^ 53))"
    by (rule rnd_even_mono)
  then have "rnd_even (x / q) \<le> (2 :: int) ^ 53"
    by (simp only: rnd_even_of_int)
  then have "(of_int (rnd_even (x / q)) :: rat) \<le> of_int (2 ^ 53)"
    by (simp only: of_int_le_iff)
  then have "of_int (rnd_even (x / q)) * q \<le> of_int (2 ^ 53) * q"
    using q0 by (intro mult_right_mono) simp_all
  then have hi: "fl x \<le> 2 powi (expo x + 1)"
    using qe1 by (simp add: fl_pos [OF assms] q_def [symmetric] mult.commute)
  show ?thesis
    using lo hi by simp
qed

lemma fl_zero: "fl 0 = 0"
  by (simp add: fl_def)

lemma fl_mono_pos:
  assumes "0 < x" and "x \<le> y"
  shows "fl x \<le> fl y"
proof (cases "expo x = expo y")
  case True
  define q :: rat where "q = 2 powi (expo x - 52)"
  have q0: "0 < q"
    by (simp add: q_def)
  have y0: "0 < y"
    using assms by simp
  have "x / q \<le> y / q"
    using assms(2) q0 by (simp add: divide_right_mono)
  then have "rnd_even (x / q) \<le> rnd_even (y / q)"
    by (rule rnd_even_mono)
  then have "(of_int (rnd_even (x / q)) :: rat) \<le> of_int (rnd_even (y / q))"
    by (simp only: of_int_le_iff)
  then have "of_int (rnd_even (x / q)) * q \<le> of_int (rnd_even (y / q)) * q"
    using q0 by (intro mult_right_mono) simp_all
  then show ?thesis
    by (simp add: fl_pos [OF assms(1)] fl_pos [OF y0] True [symmetric] q_def [symmetric])
next
  case False
  have y0: "0 < y"
    using assms by simp
  have "expo x + 1 \<le> expo y"
    using False expo_mono [OF assms] by simp
  then have "(2 :: rat) powi (expo x + 1) \<le> 2 powi (expo y)"
    by (intro power_int_increasing) simp_all
  then show ?thesis
    using fl_range [OF assms(1)] fl_range [OF y0] by linarith
qed

lemma fl_nonneg: "0 \<le> x \<Longrightarrow> 0 \<le> fl x"
proof (cases "x = 0")
  case True
  then show ?thesis by (simp add: fl_zero)
next
  case False
  assume "0 \<le> x"
  then have "0 < x" using False by simp
  have "(0 :: rat) \<le> 2 powi (expo x)"
    by simp
  then show ?thesis
    using fl_range [OF \<open>0 < x\<close>] by linarith
qed

lemma fl_mono:
  assumes "0 \<le> x" and "x \<le> y"
  shows "fl x \<le> fl y"
proof (cases "x = 0")
  case True
  then show ?thesis
    using fl_nonneg [of y] assms by (simp add: fl_zero)
next
  case False
  then show ?thesis
    using assms fl_mono_pos by simp
qed

lemma fl_repr:
  assumes "0 < m" and "m < 2 ^ 53"
  shows "fl (of_int m * 2 powi k) = of_int m * 2 powi k"
proof -
  define x :: rat where "x = of_int m * 2 powi k"
  define q :: rat where "q = 2 powi (expo x - 52)"
  have x0: "0 < x"
    using assms(1) by (simp add: x_def)
  have q0: "0 < q"
    by (simp add: q_def)
  have "(of_int m :: rat) < of_int (2 ^ 53)"
    using assms(2) by (simp only: of_int_less_iff)
  then have "x < 2 ^ 53 * 2 powi k"
    unfolding x_def by (intro mult_strict_right_mono) simp_all
  also have "(2 :: rat) ^ 53 * 2 powi k = 2 powi (53 + k)"
    by (simp add: power_int_add)
  finally have "(2 :: rat) powi (expo x) < 2 powi (53 + k)"
    using expo_bounds [OF x0] by linarith
  then have "expo x < 53 + k"
  proof -
    have "\<not> 53 + k \<le> expo x"
    proof
      assume "53 + k \<le> expo x"
      then have "(2 :: rat) powi (53 + k) \<le> 2 powi (expo x)"
        by (intro power_int_increasing) simp_all
      then show False
        using \<open>(2 :: rat) powi (expo x) < 2 powi (53 + k)\<close> by linarith
    qed
    then show ?thesis by simp
  qed
  define j where "j = nat (k - expo x + 52)"
  have j: "int j = k - (expo x - 52)"
    using \<open>expo x < 53 + k\<close> by (simp add: j_def)
  have "(2 :: rat) powi k / q = 2 powi (int j)"
    unfolding q_def j by (simp add: power_int_diff)
  then have kq: "(2 :: rat) powi k / q = 2 ^ j"
    by (simp only: power_int_of_nat)
  have "x / q = of_int m * (2 powi k / q)"
    by (simp add: x_def)
  then have xq: "x / q = of_int (m * 2 ^ j)"
    by (simp add: kq)
  have "fl x = of_int (rnd_even (x / q)) * q"
    by (simp add: fl_pos [OF x0] q_def)
  also have "\<dots> = x / q * q"
    unfolding xq by (simp only: rnd_even_of_int)
  also have "\<dots> = x"
    using q0 by simp
  finally show ?thesis
    by (simp add: x_def)
qed

lemma fl_of_int:
  assumes "0 \<le> n" and "n < 2 ^ 53"
  shows "fl (of_int n) = of_int n"
proof (cases "n = 0")
  case True
  then show ?thesis by (simp add: fl_zero)
next
  case False
  then have "0 < n" using assms by simp
  then show ?thesis
    using fl_repr [of n 0] assms(2) by simp
qed

lemma fl_half:
  assumes "0 \<le> n" and "n < 2 ^ 52"
  shows "fl (of_int n + 1 / 2) = of_int n + 1 / 2"
proof -
  have r: "fl (of_int (2 * n + 1) * 2 powi (- 1)) = of_int (2 * n + 1) * 2 powi (- 1)"
    using assms by (intro fl_repr) simp_all
  have eq: "of_int (2 * n + 1) * 2 powi (- 1) = (of_int n + 1 / 2 :: rat)"
    by (simp add: power_int_minus field_simps)
  show ?thesis
    using r unfolding eq .
qed

lemma unit_roundoff_pos: "0 < unit_roundoff" and unit_roundoff_le: "unit_roundoff \<le> 1"
  by (simp_all add: unit_roundoff_def)

lemma fl_bounds:
  assumes "0 \<le> x"
  shows "x * (1 - unit_roundoff) \<le> fl x \<and> fl x \<le> x * (1 + unit_roundoff)"
proof (cases "x = 0")
  case True
  then show ?thesis by (simp add: fl_zero)
next
  case False
  then have "0 < x" using assms by simp
  have eq: "x / 2 ^ 53 = x * unit_roundoff"
    by (simp add: unit_roundoff_def)
  have "\<bar>fl x - x\<bar> \<le> x * unit_roundoff"
    using fl_err [OF \<open>0 < x\<close>] unfolding eq .
  then have "fl x - x \<le> x * unit_roundoff" and "x - fl x \<le> x * unit_roundoff"
    by linarith+
  then show ?thesis
    by (simp add: algebra_simps)
qed

lemma fl_le:
  assumes "0 \<le> x" and "x \<le> b"
  shows "fl x \<le> b * (1 + unit_roundoff)"
proof -
  have "fl x \<le> x * (1 + unit_roundoff)"
    using fl_bounds [OF assms(1)] by simp
  also have "\<dots> \<le> b * (1 + unit_roundoff)"
    using assms(2) unit_roundoff_pos by (intro mult_right_mono) simp_all
  finally show ?thesis .
qed

lemma fl_ge:
  assumes "0 \<le> a" and "a \<le> x"
  shows "a * (1 - unit_roundoff) \<le> fl x"
proof -
  have "a * (1 - unit_roundoff) \<le> x * (1 - unit_roundoff)"
    using assms(2) unit_roundoff_le by (intro mult_right_mono) simp_all
  also have "\<dots> \<le> fl x"
    using fl_bounds [of x] assms by simp
  finally show ?thesis .
qed

lemma floor_perturb:
  fixes N M :: int and v :: rat
  assumes M: "0 < M"
    and lo: "of_int N / of_int M - 1 \<le> v"
    and hi: "v < of_int N / of_int M + 1 / of_int M"
  shows "N div M - 1 \<le> \<lfloor>v\<rfloor> \<and> \<lfloor>v\<rfloor> \<le> N div M"
proof -
  have M': "(0 :: rat) < of_int M"
    using M by simp
  have "(of_int N :: rat) = of_int (M * (N div M) + N mod M)"
    by simp
  also have "\<dots> = of_int M * of_int (N div M) + of_int (N mod M)"
    by (simp only: of_int_add of_int_mult)
  finally have N: "(of_int N :: rat) = of_int M * of_int (N div M) + of_int (N mod M)" .
  have E: "(of_int N :: rat) / of_int M = of_int (N div M) + of_int (N mod M) / of_int M"
    unfolding N using M' by (simp add: field_simps)
  have "0 \<le> N mod M" and "N mod M \<le> M - 1"
    using M by simp_all
  then have r0: "(0 :: rat) \<le> of_int (N mod M)" and r1: "(of_int (N mod M) :: rat) \<le> of_int M - 1"
    by (simp, metis of_int_1 of_int_diff of_int_le_iff)
  have f0: "(0 :: rat) \<le> of_int (N mod M) / of_int M"
    using r0 M' by simp
  have "(of_int (N mod M) :: rat) / of_int M \<le> (of_int M - 1) / of_int M"
    using r1 M' by (simp add: divide_right_mono)
  also have "\<dots> = 1 - 1 / of_int M"
    using M' by (simp add: field_simps)
  finally have f1: "(of_int (N mod M) :: rat) / of_int M \<le> 1 - 1 / of_int M" .
  have "of_int (N div M - 1) \<le> v"
    using lo f0 unfolding E by simp
  then have a: "N div M - 1 \<le> \<lfloor>v\<rfloor>"
    by (simp only: le_floor_iff)
  have "v < of_int (N div M + 1)"
    using hi f1 unfolding E by simp
  then have "\<lfloor>v\<rfloor> < N div M + 1"
    by (simp only: floor_less_iff)
  then show ?thesis
    using a by simp
qed

lemma lit_0_40_val: "lit_0_40 = 3602879701896397 / 9007199254740992"
  unfolding lit_0_40_def by code_simp

lemma py_float_exact: "0 \<le> n \<Longrightarrow> n < 2 ^ 53 \<Longrightarrow> py_float n = of_int n"
  by (simp add: py_float_def fl_of_int)

lemma roundoff_sq: "(1 + unit_roundoff) * (1 + unit_roundoff) \<le> 1 + 3 * unit_roundoff"
  and roundoff_sq_lo: "1 - 2 * unit_roundoff \<le> (1 - unit_roundoff) * (1 - unit_roundoff)"
  and roundoff_cube: "(1 + unit_roundoff) * (1 + unit_roundoff) * (1 + unit_roundoff) \<le> 1 + 4 * unit_roundoff"
  and roundoff_cube_lo: "1 - 3 * unit_roundoff \<le> (1 - unit_roundoff) * (1 - unit_roundoff) * (1 - unit_roundoff)"
  by (simp_all add: unit_roundoff_def)

lemma rat_of_int_le_pow2:
  assumes "n < 2 ^ k"
  shows "(of_int n :: rat) \<le> 2 ^ k"
proof -
  have "(of_int n :: rat) < of_int (2 ^ k)"
    using assms by (simp only: of_int_less_iff)
  then show ?thesis
    by simp
qed

lemma ratio_test:
  assumes w: "0 \<le> w" "w < 2 ^ 50" and h: "0 < h" "h < 2 ^ 50"
  shows "lit_0_40 < float_quot (py_float w) (py_float h) \<longleftrightarrow> 2 * h < 5 * w"
proof -
  define W :: rat where "W = of_int w"
  define H :: rat where "H = of_int h"
  have W0: "0 \<le> W" and H0: "0 < H"
    using w h by (simp_all add: W_def H_def)
  have "H \<le> 2 ^ 50"
    unfolding H_def using h(2) by (rule rat_of_int_le_pow2)
  then have Hb: "H \<le> 1125899906842624"
    by simp
  have pw: "py_float w = W" and ph: "py_float h = H"
    using w h by (simp_all add: py_float_exact W_def H_def)
  have q: "float_quot (py_float w) (py_float h) = fl (W / H)"
    by (simp add: float_quot_def pw ph)
  show ?thesis
  proof
    assume "lit_0_40 < float_quot (py_float w) (py_float h)"
    then have a: "lit_0_40 < fl (W / H)"
      by (simp only: q)
    show "2 * h < 5 * w"
    proof (rule ccontr)
      assume "\<not> 2 * h < 5 * w"
      then have "5 * w \<le> 2 * h"
        by simp
      then have "(of_int (5 * w) :: rat) \<le> of_int (2 * h)"
        by (simp only: of_int_le_iff)
      then have "5 * W \<le> 2 * H"
        by (simp add: W_def H_def)
      then have "W \<le> 2 / 5 * H"
        by simp
      then have "W / H \<le> 2 / 5"
        using H0 by (simp only: pos_divide_le_eq)
      moreover have "0 \<le> W / H"
        using W0 H0 by simp
      ultimately have "fl (W / H) \<le> fl (2 / 5)"
        by (intro fl_mono)
      then show False
        using a by (simp add: lit_0_40_def)
    qed
  next
    assume "2 * h < 5 * w"
    then have "2 * h + 1 \<le> 5 * w"
      by simp
    then have "(of_int (2 * h + 1) :: rat) \<le> of_int (5 * w)"
      by (simp only: of_int_le_iff)
    then have b: "2 * H + 1 \<le> 5 * W"
      by (simp add: W_def H_def)
    define r :: rat where "r = of_int 7205759403792795 * 2 powi (- 54)"
    have rv: "r = 7205759403792795 / 18014398509481984"
      by (simp add: r_def power_int_minus_divide)
    have fr: "fl r = r"
      unfolding r_def by (intro fl_repr) simp_all
    have "7205759403792795 / 18014398509481984 * H \<le> W"
      using b Hb H0 by linarith
    then have "r * H \<le> W"
      by (simp only: rv)
    then have "r \<le> W / H"
      using H0 by (simp only: pos_le_divide_eq)
    moreover have "0 \<le> r"
      by (simp add: rv)
    ultimately have "fl r \<le> fl (W / H)"
      by (intro fl_mono)
    then have "r \<le> fl (W / H)"
      by (simp only: fr)
    moreover have "lit_0_40 < r"
      by (simp add: lit_0_40_val rv)
    ultimately show "lit_0_40 < float_quot (py_float w) (py_float h)"
      unfolding q by linarith
  qed
qed

lemma scaled_side:
  assumes md: "0 < md" "md < M" and M: "M < 2 ^ 25" and d: "0 \<le> d" "d \<le> M"
  shows "(d * md) div M - 1 \<le> int_of_float (float_mul (py_float d) (float_quot (py_float md) (py_float M))) \<and>
         int_of_float (float_mul (py_float d) (float_quot (py_float md) (py_float M))) \<le> (d * md) div M"
proof -
  define u where "u = unit_roundoff"
  define a :: rat where "a = of_int md / of_int M"
  define D :: rat where "D = of_int d"
  define s where "s = fl a"
  define v where "v = fl (D * s)"
  define E where "E = D * a"
  define p where "p = u * of_int md"
  define eE where "eE = u * E"
  have u0: "0 < u" and u1: "u \<le> 1"
    using unit_roundoff_pos unit_roundoff_le by (simp_all add: u_def)
  have M0: "(0 :: rat) < of_int M"
    using md by simp
  have a0: "0 \<le> a"
    using md by (simp add: a_def)
  have D0: "0 \<le> D"
    using d by (simp add: D_def)
  have lt: "md < 2 ^ 53" "M < 2 ^ 53" "d < 2 ^ 53" "md < 2 ^ 25"
    using md M d by simp_all
  have pf: "py_float d = D" "py_float md = of_int md" "py_float M = of_int M"
    using md d lt by (simp_all add: py_float_exact D_def)
  have v_eq: "float_mul (py_float d) (float_quot (py_float md) (py_float M)) = v"
    by (simp only: float_mul_def float_quot_def pf v_def s_def a_def)
  have s_hi: "s \<le> a * (1 + u)" and s_lo: "a * (1 - u) \<le> s"
    unfolding s_def u_def using fl_le [OF a0 order_refl] fl_ge [OF a0 order_refl] by simp_all
  have s0: "0 \<le> s"
    unfolding s_def using a0 by (rule fl_nonneg)
  have P0: "0 \<le> D * s"
    using D0 s0 by simp
  have "D * s \<le> D * (a * (1 + u))"
    using s_hi D0 by (rule mult_left_mono)
  then have P_hi: "D * s \<le> E * (1 + u)"
    by (simp only: E_def mult.assoc)
  have "D * (a * (1 - u)) \<le> D * s"
    using s_lo D0 by (rule mult_left_mono)
  then have P_lo: "E * (1 - u) \<le> D * s"
    by (simp only: E_def mult.assoc)
  have E0: "0 \<le> E"
    using D0 a0 by (simp add: E_def)
  have El: "0 \<le> E * (1 - u)"
    using E0 u1 by simp
  have v_hi: "v \<le> E * (1 + u) * (1 + u)"
    unfolding v_def using fl_le [OF P0 P_hi] by (simp only: u_def)
  have v_lo: "E * (1 - u) * (1 - u) \<le> v"
    unfolding v_def using fl_ge [OF El P_lo] by (simp only: u_def)
  have v0: "0 \<le> v"
    unfolding v_def using P0 by (rule fl_nonneg)
  have "D \<le> of_int M"
    using d by (simp add: D_def)
  then have "D * a \<le> of_int M * a"
    using a0 by (rule mult_right_mono)
  moreover have "of_int M * a = of_int md"
    using M0 by (simp add: a_def)
  ultimately have Emd: "E \<le> of_int md"
    by (simp only: E_def)
  have "(of_int md :: rat) \<le> 2 ^ 25"
    using lt(4) by (rule rat_of_int_le_pow2)
  moreover have "(of_int M :: rat) \<le> 2 ^ 25"
    using M by (rule rat_of_int_le_pow2)
  ultimately have mdb: "(of_int md :: rat) \<le> 33554432" and Mb: "(of_int M :: rat) \<le> 33554432"
    by simp_all
  have sq: "(1 + u) * (1 + u) \<le> 1 + 3 * u" and sql: "1 - 2 * u \<le> (1 - u) * (1 - u)"
    unfolding u_def by (rule roundoff_sq, rule roundoff_sq_lo)
  have "E * ((1 + u) * (1 + u)) \<le> E * (1 + 3 * u)"
    using sq E0 by (rule mult_left_mono)
  then have "E * (1 + u) * (1 + u) \<le> E + 3 * eE"
    by (simp add: eE_def algebra_simps)
  then have v_hi': "v \<le> E + 3 * eE"
    using v_hi by linarith
  have "E * (1 - 2 * u) \<le> E * ((1 - u) * (1 - u))"
    using sql E0 by (rule mult_left_mono)
  then have "E - 2 * eE \<le> E * (1 - u) * (1 - u)"
    by (simp add: eE_def algebra_simps)
  then have v_lo': "E - 2 * eE \<le> v"
    using v_lo by linarith
  have "u * E \<le> u * of_int md"
    using Emd u0 by (intro mult_left_mono) simp_all
  then have eEp: "eE \<le> p"
    by (simp only: eE_def p_def)
  have "u * of_int md \<le> u * 33554432"
    using mdb u0 by (intro mult_left_mono) simp_all
  moreover have "u * 33554432 = 1 / 268435456"
    by (simp add: u_def unit_roundoff_def)
  ultimately have pb: "p \<le> 1 / 268435456"
    by (simp only: p_def)
  have p0: "0 \<le> p"
    using u0 md by (simp add: p_def)
  have lo: "E - 1 \<le> v"
    using v_lo' eEp pb by linarith
  have "p * of_int M \<le> 1 / 268435456 * 33554432"
    using pb Mb M0 by (intro mult_mono) simp_all
  then have "3 * p * of_int M < 1"
    by simp
  then have "3 * p < 1 / of_int M"
    using M0 by (simp only: pos_less_divide_eq)
  then have hi: "v < E + 1 / of_int M"
    using v_hi' eEp by linarith
  have EN: "E = of_int (d * md) / of_int M"
    by (simp add: E_def D_def a_def)
  have "(d * md) div M - 1 \<le> \<lfloor>v\<rfloor> \<and> \<lfloor>v\<rfloor> \<le> (d * md) div M"
  proof (rule floor_perturb)
    show "0 < M" using md by simp
    show "of_int (d * md) / of_int M - 1 \<le> v" using lo by (simp only: EN)
    show "v < of_int (d * md) / of_int M + 1 / of_int M" using hi by (simp only: EN)
  qed
  then show ?thesis
    unfolding v_eq using v0 by (simp add: int_of_float_def)
qed

lemma auto_area:
  assumes h: "0 \<le> h" "h < 2 ^ 25" and w: "0 \<le> w" "w < 2 ^ 25"
  shows "(h * w) div 2000 - 1 \<le> int_of_float (float_mul (float_mul lit_0_0005 (py_float h)) (py_float w)) \<and>
         int_of_float (float_mul (float_mul lit_0_0005 (py_float h)) (py_float w)) \<le> (h * w) div 2000"
proof -
  define u where "u = unit_roundoff"
  define c where "c = lit_0_0005"
  define H :: rat where "H = of_int h"
  define W :: rat where "W = of_int w"
  define t where "t = fl (c * H)"
  define v where "v = fl (t * W)"
  define E where "E = H * W / 2000"
  define eE where "eE = u * E"
  have u0: "0 < u" and u1: "u \<le> 1"
    using unit_roundoff_pos unit_roundoff_le by (simp_all add: u_def)
  have H0: "0 \<le> H" and W0: "0 \<le> W"
    using h w by (simp_all add: H_def W_def)
  have "H \<le> 2 ^ 25"
    unfolding H_def using h(2) by (rule rat_of_int_le_pow2)
  moreover have "W \<le> 2 ^ 25"
    unfolding W_def using w(2) by (rule rat_of_int_le_pow2)
  ultimately have Hb: "H \<le> 33554432" and Wb: "W \<le> 33554432"
    by simp_all
  have lt: "h < 2 ^ 53" "w < 2 ^ 53"
    using h w by simp_all
  have pf: "py_float h = H" "py_float w = W"
    using h w lt by (simp_all add: py_float_exact H_def W_def)
  have v_eq: "float_mul (float_mul lit_0_0005 (py_float h)) (py_float w) = v"
    by (simp only: float_mul_def pf v_def t_def c_def)
  have k0: "(0 :: rat) \<le> 1 / 2000"
    by simp
  have c_hi: "c \<le> 1 / 2000 * (1 + u)" and c_lo: "1 / 2000 * (1 - u) \<le> c"
    unfolding c_def lit_0_0005_def u_def
    using fl_le [OF k0 order_refl] fl_ge [OF k0 order_refl] by simp_all
  have c0: "0 \<le> c"
    unfolding c_def lit_0_0005_def using k0 by (rule fl_nonneg)
  have cH0: "0 \<le> c * H"
    using c0 H0 by simp
  have "c * H \<le> 1 / 2000 * (1 + u) * H"
    using c_hi H0 by (rule mult_right_mono)
  then have cH_hi: "c * H \<le> H / 2000 * (1 + u)"
    by (simp add: algebra_simps)
  have "1 / 2000 * (1 - u) * H \<le> c * H"
    using c_lo H0 by (rule mult_right_mono)
  then have cH_lo: "H / 2000 * (1 - u) \<le> c * H"
    by (simp add: algebra_simps)
  have Hl: "0 \<le> H / 2000 * (1 - u)"
    using H0 u1 by simp
  have t_hi: "t \<le> H / 2000 * (1 + u) * (1 + u)"
    unfolding t_def using fl_le [OF cH0 cH_hi] by (simp only: u_def)
  have t_lo: "H / 2000 * (1 - u) * (1 - u) \<le> t"
    unfolding t_def using fl_ge [OF Hl cH_lo] by (simp only: u_def)
  have t0: "0 \<le> t"
    unfolding t_def using cH0 by (rule fl_nonneg)
  have tW0: "0 \<le> t * W"
    using t0 W0 by simp
  have "t * W \<le> H / 2000 * (1 + u) * (1 + u) * W"
    using t_hi W0 by (rule mult_right_mono)
  moreover have "H / 2000 * (1 + u) * (1 + u) * W = E * ((1 + u) * (1 + u))"
    by (simp add: E_def)
  ultimately have tW_hi: "t * W \<le> E * ((1 + u) * (1 + u))"
    by (simp only:)
  have "H / 2000 * (1 - u) * (1 - u) * W \<le> t * W"
    using t_lo W0 by (rule mult_right_mono)
  moreover have "H / 2000 * (1 - u) * (1 - u) * W = E * ((1 - u) * (1 - u))"
    by (simp add: E_def)
  ultimately have tW_lo: "E * ((1 - u) * (1 - u)) \<le> t * W"
    by (simp only:)
  have E0: "0 \<le> E"
    using H0 W0 by (simp add: E_def)
  have El: "0 \<le> E * ((1 - u) * (1 - u))"
    using E0 by simp
  have v_hi: "v \<le> E * ((1 + u) * (1 + u)) * (1 + u)"
    unfolding v_def using fl_le [OF tW0 tW_hi] by (simp only: u_def)
  have v_lo: "E * ((1 - u) * (1 - u)) * (1 - u) \<le> v"
    unfolding v_def using fl_ge [OF El tW_lo] by (simp only: u_def)
  have v0: "0 \<le> v"
    unfolding v_def using tW0 by (rule fl_nonneg)
  have cu: "(1 + u) * (1 + u) * (1 + u) \<le> 1 + 4 * u" and cl: "1 - 3 * u \<le> (1 - u) * (1 - u) * (1 - u)"
    unfolding u_def by (rule roundoff_cube, rule roundoff_cube_lo)
  have "E * ((1 + u) * (1 + u) * (1 + u)) \<le> E * (1 + 4 * u)"
    using cu E0 by (rule mult_left_mono)
  then have "E * ((1 + u) * (1 + u)) * (1 + u) \<le> E + 4 * eE"
    by (simp add: eE_def algebra_simps)
  then have v_hi': "v \<le> E + 4 * eE"
    using v_hi by linarith
  have "E * (1 - 3 * u) \<le> E * ((1 - u) * (1 - u) * (1 - u))"
    using cl E0 by (rule mult_left_mono)
  then have "E - 3 * eE \<le> E * ((1 - u) * (1 - u)) * (1 - u)"
    by (simp add: eE_def algebra_simps)
  then have v_lo': "E - 3 * eE \<le> v"
    using v_lo by linarith
  have "H * W \<le> 33554432 * 33554432"
    using Hb Wb H0 W0 by (intro mult_mono) simp_all
  then have Eb: "E \<le> 1125899906842624 / 2000"
    by (simp add: E_def)
  have "u * E \<le> u * (1125899906842624 / 2000)"
    using Eb u0 by (intro mult_left_mono) simp_all
  moreover have "u * (1125899906842624 / 2000) = 1 / 16000"
    by (simp add: u_def unit_roundoff_def)
  ultimately have eb: "eE \<le> 1 / 16000"
    by (simp only: eE_def)
  have lo: "E - 1 \<le> v"
    using v_lo' eb by linarith
  have hi: "v < E + 1 / 2000"
    using v_hi' eb by linarith
  have EN: "E = of_int (h * w) / of_int 2000"
    by (simp add: E_def H_def W_def)
  have "(h * w) div 2000 - 1 \<le> \<lfloor>v\<rfloor> \<and> \<lfloor>v\<rfloor> \<le> (h * w) div 2000"
  proof (rule floor_perturb)
    show "(0 :: int) < 2000" by simp
    show "of_int (h * w) / of_int 2000 - 1 \<le> v" using lo by (simp only: EN)
    show "v < of_int (h * w) / of_int 2000 + 1 / of_int 2000" using hi by (simp only: EN)
  qed
  then show ?thesis
    unfolding v_eq using v0 by (simp add: int_of_float_def)
qed

section \<open>Decoding\<close>

lemma digit_cases:
  assumes "d < (10::nat)"
  shows "d = 0 \<or> d = 1 \<or> d = 2 \<or> d = 3 \<or> d = 4 \<or> d = 5 \<or> d = 6 \<or> d = 7 \<or> d = 8 \<or> d = 9"
  using assms by arith

lemma digit_val_digit_char: "d < 10 \<Longrightarrow> digit_val (digit_char d) = Some d"
  using digit_cases [of d] by (auto simp: digit_char_def digit_val_def)

lemma digit_char_not_sign: "d < 10 \<Longrightarrow> digit_char d \<noteq> CHR ''-'' \<and> digit_char d \<noteq> CHR ''+''"
  using digit_cases [of d] by (auto simp: digit_char_def)

lemma py_str_digit: "0 \<le> d \<Longrightarrow> d \<le> 9 \<Longrightarrow> py_str d = [digit_char (nat d)]"
  by (simp add: py_str_def str_nat.simps)

lemma int_digits_chars:
  "\<forall>d\<in>set ds. d < 10 \<Longrightarrow>
     int_digits acc (map digit_char ds) = Inr (foldl (\<lambda>a d. 10 * a + int d) acc ds)"
  by (induction ds arbitrary: acc) (simp_all add: digit_val_digit_char)

lemma py_int_chars:
  assumes "ds \<noteq> []" and "\<forall>d\<in>set ds. d < 10"
  shows "py_int (map digit_char ds) = Inr (foldl (\<lambda>a d. 10 * a + int d) 0 ds)"
proof -
  obtain d ds' where ds: "ds = d # ds'"
    using assms(1) by (cases ds) auto
  have "d < 10"
    using assms(2) ds by simp
  then have "digit_char d \<noteq> CHR ''-''" and "digit_char d \<noteq> CHR ''+''"
    using digit_char_not_sign by auto
  then have "py_int (map digit_char ds) = int_digits 0 (map digit_char ds)"
    by (simp add: py_int_def ds)
  then show ?thesis
    using int_digits_chars [OF assms(2)] by simp
qed

lemma foldl_int_nat:
  "\<forall>d\<in>set ds. 0 \<le> d \<Longrightarrow>
     foldl (\<lambda>a d. 10 * a + int d) acc (map nat ds) = foldl (\<lambda>a d. 10 * a + d) acc ds"
  by (induction ds arbitrary: acc) simp_all

lemma digit_string:
  assumes "\<forall>d\<in>set ds. 0 \<le> d \<and> d \<le> 9"
  shows "concat (map py_str ds) = map digit_char (map nat ds)"
  using assms by (induction ds) (simp_all add: py_str_digit)

lemma py_int_digit_string:
  assumes "ds \<noteq> []" and "\<forall>d\<in>set ds. 0 \<le> d \<and> d \<le> 9"
  shows "py_int (concat (map py_str ds)) = Inr (decimal_value ds)"
proof -
  have "py_int (map digit_char (map nat ds)) = Inr (foldl (\<lambda>a d. 10 * a + int d) 0 (map nat ds))"
    using assms by (intro py_int_chars) auto
  also have "foldl (\<lambda>a d. 10 * a + int d) 0 (map nat ds) = decimal_value ds"
    using assms(2) by (simp add: foldl_int_nat decimal_value_def)
  finally show ?thesis
    by (simp add: digit_string [OF assms(2)])
qed

lemma foldl_append_concat: "foldl (\<lambda>s b. s @ f b) s0 bs = s0 @ concat (map f bs)"
  by (induction bs arbitrary: s0) simp_all

lemma mul_pow10_nonneg: "0 \<le> e \<Longrightarrow> mul_pow10 base e = Inr (PyInt (base * 10 ^ nat e))"
  by (simp add: mul_pow10_def)

lemma analyze_bands: "bands (analyze bs) =
   map (\<lambda>b. \<lparr>json_x = band_x b, json_y = band_y b, json_color = band_name b, json_digit = band_digit b\<rparr>) bs"
  by (simp add: analyze_def Let_def)

lemma analyze_value_ohms:
  "value_ohms (analyze bs) =
     (if length bs \<in> {3, 4, 5} then
        (case py_int (concat (map (\<lambda>b. py_str (band_digit b)) (butlast bs))) of
           Inl e \<Rightarrow> None
         | Inr base \<Rightarrow> (case mul_pow10 base (band_digit (last bs)) of Inl e \<Rightarrow> None | Inr v \<Rightarrow> Some v))
      else None)"
  by (auto simp: analyze_def Let_def py_last_def split: sum.splits)

lemma displayResults_eq:
  "displayResults bs =
     (if length bs \<in> {3, 4, 5} then
        (case py_int (concat (map (\<lambda>b. py_str (band_digit b)) (butlast bs))) of
           Inl e \<Rightarrow> Inl e
         | Inr base \<Rightarrow> (case mul_pow10 base (band_digit (last bs)) of Inl e \<Rightarrow> Inl e | Inr v \<Rightarrow> Inr [v]))
      else Inr [])"
  by (auto simp: displayResults_def Let_def py_last_def foldl_append_concat split: sum.splits)

lemma decode_digits:
  assumes len: "length bs \<in> {3, 4, 5}" and dig: "\<forall>b\<in>set bs. 0 \<le> band_digit b \<and> band_digit b \<le> 9"
  shows "py_int (concat (map (\<lambda>b. py_str (band_digit b)) (butlast bs)))
           = Inr (decimal_value (map band_digit (butlast bs)))"
    and "mul_pow10 base (band_digit (last bs)) = Inr (PyInt (base * 10 ^ nat (band_digit (last bs))))"
proof -
  have ne: "bs \<noteq> []" and ne': "butlast bs \<noteq> []"
    using len by (auto simp: butlast_conv_take)
  have "\<forall>d\<in>set (map band_digit (butlast bs)). 0 \<le> d \<and> d \<le> 9"
    using dig by (auto dest: in_set_butlastD)
  then have "py_int (concat (map py_str (map band_digit (butlast bs)))) = Inr (decimal_value (map band_digit (butlast bs)))"
    using ne' by (intro py_int_digit_string) auto
  then show "py_int (concat (map (\<lambda>b. py_str (band_digit b)) (butlast bs)))
           = Inr (decimal_value (map band_digit (butlast bs)))"
    by (simp add: comp_def)
  have "0 \<le> band_digit (last bs)"
    using dig ne by auto
  then show "mul_pow10 base (band_digit (last bs)) = Inr (PyInt (base * 10 ^ nat (band_digit (last bs))))"
    by (rule mul_pow10_nonneg)
qed


text \<open>
  Claim C1. For a band list of length 3, 4 or 5 whose digits are decimal digits, both
  decoders yield the decimal integer spelled by the digits of all bands but the last,
  times ten to the power of the last band's digit. In particular the digits 2, 2, 0, 3
  decode to 220000 ohms.
\<close>

theorem decode_correct:
  "(length bs \<in> {3, 4, 5} \<and> (\<forall>b\<in>set bs. 0 \<le> band_digit b \<and> band_digit b \<le> 9) \<longrightarrow>
      value_ohms (analyze bs) =
        Some (PyInt (decimal_value (map band_digit (butlast bs)) * 10 ^ nat (band_digit (last bs)))) \<and>
      displayResults bs =
        Inr [PyInt (decimal_value (map band_digit (butlast bs)) * 10 ^ nat (band_digit (last bs)))]) \<and>
   (map band_digit bs = [2, 2, 0, 3] \<longrightarrow>
      value_ohms (analyze bs) = Some (PyInt 220000) \<and> displayResults bs = Inr [PyInt 220000])"
proof -
  have general: "value_ohms (analyze bs) =
        Some (PyInt (decimal_value (map band_digit (butlast bs)) * 10 ^ nat (band_digit (last bs)))) \<and>
      displayResults bs =
        Inr [PyInt (decimal_value (map band_digit (butlast bs)) * 10 ^ nat (band_digit (last bs)))]"
    if len: "length bs \<in> {3, 4, 5}" and dig: "\<forall>b\<in>set bs. 0 \<le> band_digit b \<and> band_digit b \<le> 9"
  proof -
    note d1 = decode_digits(1) [OF len dig]
    note d2 = decode_digits(2) [OF len dig]
    have "value_ohms (analyze bs) =
        Some (PyInt (decimal_value (map band_digit (butlast bs)) * 10 ^ nat (band_digit (last bs))))"
      unfolding analyze_value_ohms d1 using len by (simp only: if_True sum.case d2 option.simps)
    moreover have "displayResults bs =
        Inr [PyInt (decimal_value (map band_digit (butlast bs)) * 10 ^ nat (band_digit (last bs)))]"
      unfolding displayResults_eq d1 using len by (simp only: if_True sum.case d2)
    ultimately show ?thesis by (rule conjI)
  qed
  have special: "value_ohms (analyze bs) = Some (PyInt 220000) \<and> displayResults bs = Inr [PyInt 220000]"
    if m: "map band_digit bs = [2, 2, 0, 3]"
  proof -
    have "length (map band_digit bs) = 4"
      unfolding m by simp
    then have l4: "length bs = 4"
      by simp
    then have len: "length bs \<in> {3, 4, 5}"
      by simp
    have ne: "bs \<noteq> []"
      using l4 by auto
    have dig: "\<forall>b\<in>set bs. 0 \<le> band_digit b \<and> band_digit b \<le> 9"
    proof
      fix b assume "b \<in> set bs"
      then have "band_digit b \<in> set (map band_digit bs)"
        by simp
      then have "band_digit b \<in> {2, 0, 3}"
        unfolding m by simp
      then show "0 \<le> band_digit b \<and> band_digit b \<le> 9"
        by auto
    qed
    have "map band_digit (butlast bs) = butlast (map band_digit bs)"
      by (simp add: map_butlast)
    then have bl: "map band_digit (butlast bs) = [2, 2, 0]"
      unfolding m by simp
    have "band_digit (last bs) = last (map band_digit bs)"
      using ne by (simp add: last_map)
    then have la: "band_digit (last bs) = 3"
      unfolding m by simp
    have v: "decimal_value [2, 2, 0] * 10 ^ nat 3 = 220000"
      by (simp add: decimal_value_def)
    show ?thesis
      using general [OF len dig] unfolding bl la v .
  qed
  show ?thesis
    using general special by blast
qed

theorem decode_correct_witness:
  "length p4_bands \<in> {3, 4, 5} \<and> list_all (\<lambda>b. 0 \<le> band_digit b \<and> band_digit b \<le> 9) p4_bands \<and>
   map band_digit p4_bands = [2, 2, 0, 3] \<and>
   value_ohms (analyze p4_bands) = Some (PyInt 220000) \<and>
   displayResults p4_bands = Inr [PyInt 220000]"
proof -
  have l: "length p4_bands \<in> {3, 4, 5}"
    by (simp add: p4_bands_def)
  have d: "\<forall>b\<in>set p4_bands. 0 \<le> band_digit b \<and> band_digit b \<le> 9"
    by (simp add: p4_bands_def mk_band_def Colour_Range_def)
  have m: "map band_digit p4_bands = [2, 2, 0, 3]"
    by (simp add: p4_bands_def mk_band_def Colour_Range_def)
  have d': "list_all (\<lambda>b. 0 \<le> band_digit b \<and> band_digit b \<le> 9) p4_bands"
    using d by (simp only: list_all_iff)
  show ?thesis
    using decode_correct [of p4_bands] l d d' m by blast
qed

text \<open>
  Claim C3. The taxonomy has ten entries, their digits are 0 to 9 in this order, each
  once, and the hues of red's second range are disjoint from those of its entry.
\<close>

theorem taxonomy_invariant:
  "length Colour_Range = 10 \<and>
   map digit Colour_Range = [0, 1, 2, 3, 4, 5, 6, 7, 8, 9] \<and>
   distinct (map digit Colour_Range) \<and>
   (\<exists>red. filter (\<lambda>c. name c = ''RED'') Colour_Range = [red] \<and>
      hue_range (lower red) (upper red) \<inter> hue_range Red_top_low Red_top_high = {})"
  by (simp add: Colour_Range_def hue_range_def Red_top_low_def Red_top_high_def)

text \<open>
  Claim C4. When the number of bands is not 3, 4 or 5, zero included, nothing fails:
  \<^verbatim>\<open>analyze\<close> returns every band with no resistance, and \<^verbatim>\<open>displayResults\<close> prints nothing.
\<close>

theorem nonstandard_count:
  "length bs \<notin> {3, 4, 5} \<Longrightarrow>
     analyze bs =
       \<lparr>bands = map (\<lambda>b. \<lparr>json_x = band_x b, json_y = band_y b, json_color = band_name b,
                           json_digit = band_digit b\<rparr>) bs,
        value_ohms = None\<rparr> \<and>
     displayResults bs = Inr []"
  by (simp add: analyze_def displayResults_def Let_def)

theorem nonstandard_count_witness:
  "length two_bands \<notin> {3, 4, 5} \<and>
   analyze two_bands =
     \<lparr>bands = [\<lparr>json_x = 10, json_y = 5, json_color = ''RED'', json_digit = 2\<rparr>,
               \<lparr>json_x = 20, json_y = 5, json_color = ''BLACK'', json_digit = 0\<rparr>],
      value_ohms = None\<rparr> \<and>
   displayResults two_bands = Inr [] \<and>
   length ([] :: band list) \<notin> {3, 4, 5} \<and>
   analyze [] = \<lparr>bands = [], value_ohms = None\<rparr> \<and> displayResults [] = Inr []"
  using nonstandard_count [of two_bands] nonstandard_count [of "[]"]
  by (simp add: two_bands_def mk_band_def Colour_Range_def)

text \<open>
  Claim C6 says that the closing of the region-of-interest extractor uses a square of
  side \<^verbatim>\<open>morph_kernel\<close> for every \<^verbatim>\<open>morph_kernel\<close> of at least 1. With \<^verbatim>\<open>morph_kernel = 1\<close>
  the square has side 3.
\<close>

theorem roi_kernel_counterexample:
  "1 \<le> morph_kernel (Config_default\<lparr>morph_kernel := 1\<rparr>) \<and>
   MorphologyEx_CLOSE
     (MORPH_RECT (morph_kernel (Config_default\<lparr>morph_kernel := 1\<rparr>))
        (morph_kernel (Config_default\<lparr>morph_kernel := 1\<rparr>))) 2
     \<notin> set (resistor_roi_mask (Config_default\<lparr>morph_kernel := 1\<rparr>)) \<and>
   MorphologyEx_CLOSE (MORPH_RECT 3 3) 2
     \<in> set (resistor_roi_mask (Config_default\<lparr>morph_kernel := 1\<rparr>))"
  by (simp add: resistor_roi_mask_def Let_def)

text \<open>
  Claim C6, amended. The closing runs once, for two iterations, with a square of side
  \<open>max 3 morph_kernel\<close>: of side \<^verbatim>\<open>morph_kernel\<close> from 3 on, and of side 3 below.
\<close>

theorem roi_kernel_size:
  "(\<forall>kernel n. MorphologyEx_CLOSE kernel n \<in> set (resistor_roi_mask cfg) \<longleftrightarrow>
      kernel = MORPH_RECT (max 3 (morph_kernel cfg)) (max 3 (morph_kernel cfg)) \<and> n = 2) \<and>
   (3 \<le> morph_kernel cfg \<longrightarrow>
      MorphologyEx_CLOSE (MORPH_RECT (morph_kernel cfg) (morph_kernel cfg)) 2
        \<in> set (resistor_roi_mask cfg)) \<and>
   (morph_kernel cfg < 3 \<longrightarrow>
      MorphologyEx_CLOSE (MORPH_RECT 3 3) 2 \<in> set (resistor_roi_mask cfg))"
  by (auto simp: resistor_roi_mask_def Let_def max_def)

theorem roi_kernel_size_witness:
  "3 \<le> morph_kernel (Config_default\<lparr>morph_kernel := 5\<rparr>) \<and>
   MorphologyEx_CLOSE (MORPH_RECT 5 5) 2 \<in> set (resistor_roi_mask (Config_default\<lparr>morph_kernel := 5\<rparr>)) \<and>
   morph_kernel (Config_default\<lparr>morph_kernel := 2\<rparr>) < 3 \<and>
   MorphologyEx_CLOSE (MORPH_RECT 3 3) 2 \<in> set (resistor_roi_mask (Config_default\<lparr>morph_kernel := 2\<rparr>))"
  using roi_kernel_size [of "Config_default\<lparr>morph_kernel := 5\<rparr>"]
    roi_kernel_size [of "Config_default\<lparr>morph_kernel := 2\<rparr>"]
  by simp

text \<open>
  Claim C7 says that a failing parse of the digit string never aborts the decoding. In
  \<^verbatim>\<open>displayResults\<close> nothing catches it: with the digits 2, -1, 0, 3 the string is
  \<^verbatim>\<open>2-10\<close> and the \<open>ValueError\<close> leaves the function.
\<close>

theorem unguarded_parse_counterexample:
  "length bad_bands \<in> {3, 4, 5} \<and>
   py_int (concat (map (\<lambda>b. py_str (band_digit b)) (butlast bad_bands))) = Inl ValueError \<and>
   displayResults bad_bands = Inl ValueError"
proof -
  have s: "concat (map (\<lambda>b. py_str (band_digit b)) (butlast bad_bands)) = ''2-10''"
    by (simp add: bad_bands_def mk_band_def Colour_Range_def py_str_def str_nat.simps digit_char_def)
  have p: "py_int ''2-10'' = Inl ValueError"
    by (simp add: py_int_def digit_val_def)
  have l: "length bad_bands \<in> {3, 4, 5}"
    by (simp add: bad_bands_def)
  show ?thesis
    using l by (simp add: displayResults_eq s p)
qed

text \<open>
  Claim C7, amended. In \<^verbatim>\<open>analyze\<close> a failing parse is caught: the resistance is absent
  and every band is returned. When all digits are decimal digits, as those of the
  taxonomy are, the parse succeeds and both decoders produce the same value.
\<close>

theorem parse_guard:
  "(length bs \<in> {3, 4, 5} \<and>
    py_int (concat (map (\<lambda>b. py_str (band_digit b)) (butlast bs))) = Inl e \<longrightarrow>
      analyze bs =
        \<lparr>bands = map (\<lambda>b. \<lparr>json_x = band_x b, json_y = band_y b, json_color = band_name b,
                            json_digit = band_digit b\<rparr>) bs,
         value_ohms = None\<rparr>) \<and>
   (length bs \<in> {3, 4, 5} \<and> (\<forall>b\<in>set bs. 0 \<le> band_digit b \<and> band_digit b \<le> 9) \<longrightarrow>
      (\<exists>base. py_int (concat (map (\<lambda>b. py_str (band_digit b)) (butlast bs))) = Inr base) \<and>
      (\<exists>v. displayResults bs = Inr [v] \<and> value_ohms (analyze bs) = Some v))"
proof (intro conjI impI)
  assume a: "length bs \<in> {3, 4, 5} \<and>
    py_int (concat (map (\<lambda>b. py_str (band_digit b)) (butlast bs))) = Inl e"
  have "value_ohms (analyze bs) = None"
    unfolding analyze_value_ohms using a by simp
  moreover have "analyze bs = \<lparr>bands = bands (analyze bs), value_ohms = value_ohms (analyze bs)\<rparr>"
    by simp
  ultimately show "analyze bs =
        \<lparr>bands = map (\<lambda>b. \<lparr>json_x = band_x b, json_y = band_y b, json_color = band_name b,
                            json_digit = band_digit b\<rparr>) bs,
         value_ohms = None\<rparr>"
    by (simp only: analyze_bands)
next
  assume a: "length bs \<in> {3, 4, 5} \<and> (\<forall>b\<in>set bs. 0 \<le> band_digit b \<and> band_digit b \<le> 9)"
  then have len: "length bs \<in> {3, 4, 5}" and dig: "\<forall>b\<in>set bs. 0 \<le> band_digit b \<and> band_digit b \<le> 9"
    by blast+
  note d1 = decode_digits(1) [OF len dig]
  note d2 = decode_digits(2) [OF len dig]
  show "\<exists>base. py_int (concat (map (\<lambda>b. py_str (band_digit b)) (butlast bs))) = Inr base"
    using d1 by blast
  have "displayResults bs = Inr [PyInt (decimal_value (map band_digit (butlast bs)) * 10 ^ nat (band_digit (last bs)))]"
    unfolding displayResults_eq d1 using len by (simp only: if_True sum.case d2)
  moreover have "value_ohms (analyze bs) = Some (PyInt (decimal_value (map band_digit (butlast bs)) * 10 ^ nat (band_digit (last bs))))"
    unfolding analyze_value_ohms d1 using len by (simp only: if_True sum.case d2 option.simps)
  ultimately show "\<exists>v. displayResults bs = Inr [v] \<and> value_ohms (analyze bs) = Some v"
    by blast
qed

theorem parse_guard_witness:
  "length bad_bands \<in> {3, 4, 5} \<and>
   py_int (concat (map (\<lambda>b. py_str (band_digit b)) (butlast bad_bands))) = Inl ValueError \<and>
   analyze bad_bands =
     \<lparr>bands = [\<lparr>json_x = 10, json_y = 5, json_color = ''RED'', json_digit = 2\<rparr>,
               \<lparr>json_x = 20, json_y = 5, json_color = ''RED'', json_digit = - 1\<rparr>,
               \<lparr>json_x = 30, json_y = 5, json_color = ''BLACK'', json_digit = 0\<rparr>,
               \<lparr>json_x = 40, json_y = 5, json_color = ''ORANGE'', json_digit = 3\<rparr>],
      value_ohms = None\<rparr> \<and>
   length p4_bands \<in> {3, 4, 5} \<and> list_all (\<lambda>b. 0 \<le> band_digit b \<and> band_digit b \<le> 9) p4_bands \<and>
   (\<exists>v. displayResults p4_bands = Inr [v] \<and> value_ohms (analyze p4_bands) = Some v)"
proof -
  have s: "concat (map (\<lambda>b. py_str (band_digit b)) (butlast bad_bands)) = ''2-10''"
    by (simp add: bad_bands_def mk_band_def Colour_Range_def py_str_def str_nat.simps digit_char_def)
  have p: "py_int (concat (map (\<lambda>b. py_str (band_digit b)) (butlast bad_bands))) = Inl ValueError"
    unfolding s by (simp add: py_int_def digit_val_def)
  have l: "length bad_bands \<in> {3, 4, 5}"
    by (simp add: bad_bands_def)
  have m: "map (\<lambda>b. \<lparr>json_x = band_x b, json_y = band_y b, json_color = band_name b,
                            json_digit = band_digit b\<rparr>) bad_bands =
     [\<lparr>json_x = 10, json_y = 5, json_color = ''RED'', json_digit = 2\<rparr>,
               \<lparr>json_x = 20, json_y = 5, json_color = ''RED'', json_digit = - 1\<rparr>,
               \<lparr>json_x = 30, json_y = 5, json_color = ''BLACK'', json_digit = 0\<rparr>,
               \<lparr>json_x = 40, json_y = 5, json_color = ''ORANGE'', json_digit = 3\<rparr>]"
    by (simp add: bad_bands_def mk_band_def Colour_Range_def)
  have l4: "length p4_bands \<in> {3, 4, 5}"
    by (simp add: p4_bands_def)
  have d4: "\<forall>b\<in>set p4_bands. 0 \<le> band_digit b \<and> band_digit b \<le> 9"
    by (simp add: p4_bands_def mk_band_def Colour_Range_def)
  have d4': "list_all (\<lambda>b. 0 \<le> band_digit b \<and> band_digit b \<le> 9) p4_bands"
    using d4 by (simp only: list_all_iff)
  show ?thesis
    using parse_guard [of bad_bands ValueError] parse_guard [of p4_bands ValueError] l p l4 d4 d4'
    unfolding m by blast
qed

lemma odd_or_1: "odd ((n :: int) OR 1)"
  by (simp add: even_or_iff)

text \<open>
  Claim C10. Whatever integers \<^verbatim>\<open>gaussian_ksize\<close> and \<^verbatim>\<open>adaptive_block_size\<close> are, the
  Gaussian blur and the adaptive threshold are only ever called with
  \<open>max 3 (size OR 1)\<close>, an odd number of at least 3.
\<close>

theorem blur_threshold_sizes:
  assumes "preprocess h w cfg = Inr (calls, shp)"
  shows "(blur cfg \<noteq> ''bilateral'' \<longrightarrow>
            GaussianBlur (max 3 (gaussian_ksize cfg OR 1)) (max 3 (gaussian_ksize cfg OR 1)) \<in> set calls) \<and>
         (use_adaptive cfg \<longrightarrow>
            AdaptiveThreshold (max 3 (adaptive_block_size cfg OR 1)) (adaptive_C cfg) \<in> set calls) \<and>
         (\<forall>k1 k2. GaussianBlur k1 k2 \<in> set calls \<longrightarrow>
            k1 = max 3 (gaussian_ksize cfg OR 1) \<and> k2 = k1 \<and> odd k1 \<and> 3 \<le> k1) \<and>
         (\<forall>b c. AdaptiveThreshold b c \<in> set calls \<longrightarrow>
            b = max 3 (adaptive_block_size cfg OR 1) \<and> odd b \<and> 3 \<le> b)"
proof -
  have o: "odd (max 3 (n OR 1))" for n :: int
    using odd_or_1 [of n] by (simp add: max_def)
  show ?thesis
    using assms o [of "gaussian_ksize cfg"] o [of "adaptive_block_size cfg"]
    by (auto simp: preprocess_def Let_def split: if_splits sum.splits)
qed

theorem blur_threshold_sizes_witness:
  "preprocess 10 10 cfg_small_sizes =
     Inr ([GaussianBlur 3 3, CvtColor_BGR2GRAY, CvtColor_BGR2HSV, AdaptiveThreshold 3 2, Bitwise_not], 10, 10) \<and>
   blur cfg_small_sizes \<noteq> ''bilateral'' \<and> use_adaptive cfg_small_sizes \<and>
   max 3 (gaussian_ksize cfg_small_sizes OR 1) = 3 \<and> max 3 (adaptive_block_size cfg_small_sizes OR 1) = 3 \<and>
   odd (3 :: int)"
proof -
  have p: "preprocess 10 10 cfg_small_sizes =
     Inr ([GaussianBlur 3 3, CvtColor_BGR2GRAY, CvtColor_BGR2HSV, AdaptiveThreshold 3 2, Bitwise_not], 10, 10)"
    by (simp add: preprocess_def cfg_small_sizes_def Config_default_def Let_def)
  show ?thesis
    using blur_threshold_sizes [OF p] p
    by (simp add: cfg_small_sizes_def Config_default_def)
qed

section \<open>Segmentation and ordering\<close>

lemma inRange_nth:
  "i < length img \<Longrightarrow> j < length (img ! i) \<Longrightarrow>
     inRange img lo hi ! i ! j = inRange_px (img ! i ! j) lo hi"
  by (simp add: inRange_def)

lemma inRange_px_cases: "inRange_px px lo hi = 255 \<or> inRange_px px lo hi = 0"
  by (simp add: inRange_px_def split: prod.splits)

lemma bitwise_or_inRange_nth:
  assumes "i < length img" and "j < length (img ! i)"
  shows "bitwise_or (inRange img lo hi) (inRange img lo' hi') ! i ! j =
           inRange_px (img ! i ! j) lo hi OR inRange_px (img ! i ! j) lo' hi'"
  using assms by (simp add: bitwise_or_def inRange_def)

lemma or_mask_255:
  assumes "a = 255 \<or> a = 0" and "b = 255 \<or> b = 0"
  shows "(a OR b = (255 :: 8 word)) \<longleftrightarrow> (a = 255 \<or> b = 255)"
  using assms by auto

text \<open>
  Claim C8. The mask of a colour is that of its own range, except for red, whose mask is
  the union of the masks of its own range and of the second red range: a pixel of the
  second range is on in the red mask whether or not it lies in red's own range.
\<close>

theorem red_wraparound:
  "(name clr = ''RED'' \<longrightarrow>
      colour_mask img clr =
        bitwise_or (inRange img Red_top_low Red_top_high) (inRange img (lower clr) (upper clr))) \<and>
   (name clr \<noteq> ''RED'' \<longrightarrow> colour_mask img clr = inRange img (lower clr) (upper clr)) \<and>
   (i < length img \<and> j < length (img ! i) \<longrightarrow>
      (colour_mask img clr ! i ! j = 255 \<longleftrightarrow>
         inRange_px (img ! i ! j) (lower clr) (upper clr) = 255 \<or>
         (name clr = ''RED'' \<and> inRange_px (img ! i ! j) Red_top_low Red_top_high = 255))) \<and>
   (inRange_px (h, s, v) Red_top_low Red_top_high = 255 \<longleftrightarrow>
      160 \<le> uint h \<and> uint h \<le> 179 \<and> 30 \<le> uint s \<and> uint s \<le> 255 \<and> 80 \<le> uint v \<and> uint v \<le> 200) \<and>
   filter (\<lambda>c. name c = ''RED'') Colour_Range = [Colour_Range ! 2]"
proof (intro conjI impI)
  show "colour_mask img clr =
        bitwise_or (inRange img Red_top_low Red_top_high) (inRange img (lower clr) (upper clr))"
    if "name clr = ''RED''"
    using that by (simp add: colour_mask_def Let_def)
  show "colour_mask img clr = inRange img (lower clr) (upper clr)" if "name clr \<noteq> ''RED''"
    using that by (simp add: colour_mask_def Let_def)
  show "colour_mask img clr ! i ! j = 255 \<longleftrightarrow>
         inRange_px (img ! i ! j) (lower clr) (upper clr) = 255 \<or>
         (name clr = ''RED'' \<and> inRange_px (img ! i ! j) Red_top_low Red_top_high = 255)"
    if b: "i < length img \<and> j < length (img ! i)"
  proof (cases "name clr = ''RED''")
    case True
    have "colour_mask img clr ! i ! j =
        inRange_px (img ! i ! j) Red_top_low Red_top_high OR inRange_px (img ! i ! j) (lower clr) (upper clr)"
      using b True by (simp add: colour_mask_def Let_def bitwise_or_inRange_nth)
    then show ?thesis
      using True or_mask_255 [OF inRange_px_cases inRange_px_cases,
          of "img ! i ! j" Red_top_low Red_top_high "img ! i ! j" "lower clr" "upper clr"]
      by auto
  next
    case False
    then show ?thesis
      using b by (simp add: colour_mask_def Let_def inRange_nth)
  qed
  show "inRange_px (h, s, v) Red_top_low Red_top_high = 255 \<longleftrightarrow>
      160 \<le> uint h \<and> uint h \<le> 179 \<and> 30 \<le> uint s \<and> uint s \<le> 255 \<and> 80 \<le> uint v \<and> uint v \<le> 200"
    by (simp add: inRange_px_def Red_top_low_def Red_top_high_def)
  show "filter (\<lambda>c. name c = ''RED'') Colour_Range = [Colour_Range ! 2]"
    by (simp add: Colour_Range_def)
qed

theorem red_wraparound_witness:
  "name (Colour_Range ! 2) = ''RED'' \<and>
   (0 :: nat) < length img_w \<and> (0 :: nat) < length (img_w ! 0) \<and>
   inRange_px (img_w ! 0 ! 0) Red_top_low Red_top_high = 255 \<and>
   inRange_px (img_w ! 0 ! 0) (lower (Colour_Range ! 2)) (upper (Colour_Range ! 2)) = 0 \<and>
   colour_mask img_w (Colour_Range ! 2) ! 0 ! 0 = 255 \<and>
   name (Colour_Range ! 3) \<noteq> ''RED'' \<and>
   colour_mask img_w (Colour_Range ! 3) =
     inRange img_w (lower (Colour_Range ! 3)) (upper (Colour_Range ! 3))"
proof -
  have n: "name (Colour_Range ! 2) = ''RED''" and n3: "name (Colour_Range ! 3) \<noteq> ''RED''"
    by (simp_all add: Colour_Range_def)
  have b: "(0 :: nat) < length img_w \<and> (0 :: nat) < length (img_w ! 0)"
    by (simp add: img_w_def)
  have s: "inRange_px (img_w ! 0 ! 0) Red_top_low Red_top_high = 255"
    by (simp add: img_w_def inRange_px_def Red_top_low_def Red_top_high_def)
  have p: "inRange_px (img_w ! 0 ! 0) (lower (Colour_Range ! 2)) (upper (Colour_Range ! 2)) = 0"
    by (simp add: img_w_def inRange_px_def Colour_Range_def)
  show ?thesis
    using red_wraparound [of "Colour_Range ! 2" img_w 0 0] red_wraparound [of "Colour_Range ! 3" img_w] n n3 b s p
    by blast
qed

lemma collect_bands_ok:
  "\<forall>c\<in>set conts. points c \<noteq> [] \<Longrightarrow>
     collect_bands clr min_a bp conts =
       Inr (bp @ map (band_of clr) (filter (\<lambda>c. validContours c min_a) conts))"
proof (induction conts arbitrary: bp)
  case Nil
  then show ?case by simp
next
  case (Cons c conts)
  then obtain p ps where pts: "points c = p # ps"
    by (cases "points c") auto
  have ih: "collect_bands clr min_a bp' conts =
       Inr (bp' @ map (band_of clr) (filter (\<lambda>c. validContours c min_a) conts))" for bp'
    using Cons by simp
  show ?case
    by (simp add: ih leftmost_def band_of_def pts)
qed

lemma detect_ok:
  "\<forall>clr\<in>set clrs. \<forall>c\<in>set (band_contours cv img_hsv thresh roi_mask cfg clr). points c \<noteq> [] \<Longrightarrow>
     detect cv img_hsv thresh roi_mask cfg min_a bp clrs =
       Inr (bp @ concat (map (\<lambda>clr. map (band_of clr)
              (filter (\<lambda>c. validContours c min_a) (band_contours cv img_hsv thresh roi_mask cfg clr))) clrs))"
proof (induction clrs arbitrary: bp)
  case Nil
  then show ?case by simp
next
  case (Cons clr clrs)
  have c: "\<forall>c\<in>set (band_contours cv img_hsv thresh roi_mask cfg clr). points c \<noteq> []"
    using Cons.prems by simp
  have r: "\<forall>clr\<in>set clrs. \<forall>c\<in>set (band_contours cv img_hsv thresh roi_mask cfg clr). points c \<noteq> []"
    using Cons.prems by simp
  show ?case
    by (simp add: collect_bands_ok [OF c] Cons.IH [OF r])
qed

lemma findBands_ok:
  assumes "\<forall>clr\<in>set Colour_Range. \<forall>c\<in>set (band_contours cv img_hsv thresh roi_mask cfg clr). points c \<noteq> []"
  shows "findBands cv img_hsv thresh roi_mask cfg =
           Inr (py_sorted band_x (detection_order cv img_hsv thresh roi_mask cfg))"
  by (simp add: findBands_def detection_order_def Let_def detect_ok [OF assms] split: prod.splits)

text \<open>
  Claim C2. \<^verbatim>\<open>findBands\<close> returns its bands sorted by non-decreasing x, and bands of equal
  x keep the order of detection: taxonomy order, then contour order within a colour.
  OpenCV's contours are never empty, which is what lets \<^verbatim>\<open>findBands\<close> return.
\<close>

theorem findBands_sorted_stable:
  assumes "\<forall>clr\<in>set Colour_Range. \<forall>c\<in>set (band_contours cv img_hsv thresh roi_mask cfg clr). points c \<noteq> []"
  shows "\<exists>bs. findBands cv img_hsv thresh roi_mask cfg = Inr bs \<and>
           sorted (map band_x bs) \<and>
           (\<forall>k. filter (\<lambda>b. band_x b = k) bs =
                filter (\<lambda>b. band_x b = k) (detection_order cv img_hsv thresh roi_mask cfg)) \<and>
           length bs = length (detection_order cv img_hsv thresh roi_mask cfg) \<and>
           set bs = set (detection_order cv img_hsv thresh roi_mask cfg)"
proof -
  let ?d = "detection_order cv img_hsv thresh roi_mask cfg"
  have "findBands cv img_hsv thresh roi_mask cfg = Inr (py_sorted band_x ?d)"
    by (rule findBands_ok [OF assms])
  moreover have "sorted (map band_x (py_sorted band_x ?d))"
    by (simp add: py_sorted_def)
  moreover have "filter (\<lambda>b. band_x b = k) (py_sorted band_x ?d) = filter (\<lambda>b. band_x b = k) ?d" for k
    unfolding py_sorted_def by (rule sort_key_stable)
  moreover have "length (py_sorted band_x ?d) = length ?d" and "set (py_sorted band_x ?d) = set ?d"
    by (simp_all add: py_sorted_def)
  ultimately show ?thesis
    by blast
qed

lemma cv_w_contours: "set (find_contours cv_w m) \<subseteq> {c_smear, c_band}"
  by (auto simp: cv_w_def)

lemma cv_w_hyp:
  "\<forall>clr\<in>set Colour_Range. \<forall>c\<in>set (band_contours cv_w img_w [[255, 255]] [[255, 255]] Config_default clr). points c \<noteq> []"
proof (intro ballI)
  fix clr c
  assume "c \<in> set (band_contours cv_w img_w [[255, 255]] [[255, 255]] Config_default clr)"
  then have "c \<in> {c_smear, c_band}"
    using cv_w_contours unfolding band_contours_def Let_def by blast
  then show "points c \<noteq> []"
    by (auto simp: c_smear_def c_band_def)
qed

theorem findBands_sorted_stable_witness:
  "(\<exists>bs. findBands cv_w img_w [[255, 255]] [[255, 255]] Config_default = Inr bs \<and>
      sorted (map band_x bs) \<and>
      (\<forall>k. filter (\<lambda>b. band_x b = k) bs =
           filter (\<lambda>b. band_x b = k) (detection_order cv_w img_w [[255, 255]] [[255, 255]] Config_default)) \<and>
      length bs = length (detection_order cv_w img_w [[255, 255]] [[255, 255]] Config_default) \<and>
      set bs = set (detection_order cv_w img_w [[255, 255]] [[255, 255]] Config_default)) \<and>
   findBands cv_w img_w [[255, 255]] [[255, 255]] Config_default =
     Inr [mk_band (10, 4) (Colour_Range ! 1), mk_band (10, 4) (Colour_Range ! 2)]"
proof -
  have e: "findBands cv_w img_w [[255, 255]] [[255, 255]] Config_default =
     Inr [mk_band (10, 4) (Colour_Range ! 1), mk_band (10, 4) (Colour_Range ! 2)]"
    by code_simp
  show ?thesis
    using findBands_sorted_stable [OF cv_w_hyp] e by blast
qed

section \<open>Contour filter and minimum area\<close>

lemma validContours_iff:
  "validContours cont m \<longleftrightarrow>
     of_int m \<le> contourArea cont \<and>
     (case boundingRect cont of (x, y, bw, bh) \<Rightarrow>
        bh \<noteq> 0 \<and> float_quot (py_float bw) (py_float bh) \<le> lit_0_40)"
  by (auto simp: validContours_def split: prod.splits)

lemma auto_area_value:
  "int_of_float (float_mul (float_mul lit_0_0005 (py_float 145)) (py_float 800)) = 57"
  by code_simp

text \<open>
  Claim C5 says that without a configured minimum the effective minimum area is
  \<open>max 50 \<lfloor>0.0005 \<times> h \<times> w\<rfloor>\<close>. On an image of 145 rows and 800 columns that is 58, and
  the code computes 57: the binary64 product falls just short of 58.
\<close>

theorem min_area_counterexample:
  "\<not> 0 < min_area Config_default \<and>
   estimate_min_area 145 800 Config_default = 57 \<and>
   max 50 \<lfloor>(5 / 10000 :: rat) * 145 * 800\<rfloor> = 58"
  by (simp add: estimate_min_area_def Config_default_def auto_area_value)

text \<open>
  Claim C5, amended. A contour is accepted exactly when its area is at least the
  effective minimum, the height of its bounding box is not zero and the ratio of width to
  height is at most 0.40; for box sides below \<open>2 ^ 31\<close> the binary64 test decides exactly
  \<open>5 w \<le> 2 h\<close>. The effective minimum is \<^verbatim>\<open>min_area\<close> when that is positive, and
  otherwise \<open>max 50 a\<close>, where \<open>a\<close> is \<^verbatim>\<open>int(0.0005 * h * w)\<close> in binary64, which is
  \<open>\<lfloor>h w / 2000\<rfloor>\<close> or one less for image sides below \<open>2 ^ 25\<close>.
\<close>

theorem valid_contour_min_area:
  "(validContours cont m \<longleftrightarrow>
      of_int m \<le> contourArea cont \<and>
      (case boundingRect cont of (x, y, bw, bh) \<Rightarrow>
         bh \<noteq> 0 \<and> float_quot (py_float bw) (py_float bh) \<le> lit_0_40)) \<and>
   (boundingRect cont = (x, y, bw, bh) \<and> 0 \<le> bw \<and> bw < 2 ^ 31 \<and> 0 \<le> bh \<and> bh < 2 ^ 31 \<longrightarrow>
      (validContours cont m \<longleftrightarrow> of_int m \<le> contourArea cont \<and> bh \<noteq> 0 \<and> 5 * bw \<le> 2 * bh)) \<and>
   (0 < min_area cfg \<longrightarrow> estimate_min_area h w cfg = min_area cfg) \<and>
   (\<not> 0 < min_area cfg \<and> 0 \<le> h \<and> h < 2 ^ 25 \<and> 0 \<le> w \<and> w < 2 ^ 25 \<longrightarrow>
      (\<exists>a. estimate_min_area h w cfg = max 50 a \<and> h * w div 2000 - 1 \<le> a \<and> a \<le> h * w div 2000))"
proof (intro conjI impI)
  show "validContours cont m \<longleftrightarrow>
      of_int m \<le> contourArea cont \<and>
      (case boundingRect cont of (x, y, bw, bh) \<Rightarrow>
         bh \<noteq> 0 \<and> float_quot (py_float bw) (py_float bh) \<le> lit_0_40)"
    by (rule validContours_iff)
next
  assume a: "boundingRect cont = (x, y, bw, bh) \<and> 0 \<le> bw \<and> bw < 2 ^ 31 \<and> 0 \<le> bh \<and> bh < 2 ^ 31"
  show "validContours cont m \<longleftrightarrow> of_int m \<le> contourArea cont \<and> bh \<noteq> 0 \<and> 5 * bw \<le> 2 * bh"
  proof (cases "bh = 0")
    case True
    then show ?thesis
      using a by (simp add: validContours_iff)
  next
    case False
    then have "0 < bh"
      using a by simp
    moreover have "bw < 2 ^ 50" and "bh < 2 ^ 50"
      using a by simp_all
    ultimately have "lit_0_40 < float_quot (py_float bw) (py_float bh) \<longleftrightarrow> 2 * bh < 5 * bw"
      using a by (intro ratio_test) simp_all
    then have "float_quot (py_float bw) (py_float bh) \<le> lit_0_40 \<longleftrightarrow> 5 * bw \<le> 2 * bh"
      by linarith
    then show ?thesis
      using a False by (simp add: validContours_iff)
  qed
next
  assume "0 < min_area cfg"
  then show "estimate_min_area h w cfg = min_area cfg"
    by (simp add: estimate_min_area_def)
next
  assume a: "\<not> 0 < min_area cfg \<and> 0 \<le> h \<and> h < 2 ^ 25 \<and> 0 \<le> w \<and> w < 2 ^ 25"
  then have "estimate_min_area h w cfg =
      max 50 (int_of_float (float_mul (float_mul lit_0_0005 (py_float h)) (py_float w)))"
    by (simp add: estimate_min_area_def)
  moreover have "h * w div 2000 - 1 \<le> int_of_float (float_mul (float_mul lit_0_0005 (py_float h)) (py_float w)) \<and>
      int_of_float (float_mul (float_mul lit_0_0005 (py_float h)) (py_float w)) \<le> h * w div 2000"
    using a by (intro auto_area) simp_all
  ultimately show "\<exists>a. estimate_min_area h w cfg = max 50 a \<and> h * w div 2000 - 1 \<le> a \<and> a \<le> h * w div 2000"
    by blast
qed

theorem valid_contour_min_area_witness:
  "boundingRect c_band = (10, 3, 4, 12) \<and> validContours c_band 57 \<and>
   boundingRect c_smear = (1, 1, 9, 1) \<and> \<not> validContours c_smear 57 \<and>
   0 < min_area (Config_default\<lparr>min_area := 80\<rparr>) \<and>
   estimate_min_area 145 800 (Config_default\<lparr>min_area := 80\<rparr>) = 80 \<and>
   \<not> 0 < min_area Config_default \<and>
   (\<exists>a. estimate_min_area 145 800 Config_default = max 50 a \<and> 57 \<le> a \<and> a \<le> 58)"
proof -
  have b: "boundingRect c_band = (10, 3, 4, 12) \<and> (0 :: int) \<le> 4 \<and> (4 :: int) < 2 ^ 31 \<and> (0 :: int) \<le> 12 \<and> (12 :: int) < 2 ^ 31"
    by (simp add: c_band_def)
  have s: "boundingRect c_smear = (1, 1, 9, 1) \<and> (0 :: int) \<le> 9 \<and> (9 :: int) < 2 ^ 31 \<and> (0 :: int) \<le> 1 \<and> (1 :: int) < 2 ^ 31"
    by (simp add: c_smear_def)
  have ab: "contourArea c_band = 120" and as: "contourArea c_smear = 60"
    by (simp_all add: c_band_def c_smear_def)
  have m: "0 < min_area (Config_default\<lparr>min_area := 80\<rparr>)" and m': "\<not> 0 < min_area Config_default"
    by (simp_all add: Config_default_def)
  have d: "\<not> 0 < min_area Config_default \<and> (0 :: int) \<le> 145 \<and> (145 :: int) < 2 ^ 25 \<and> (0 :: int) \<le> 800 \<and> (800 :: int) < 2 ^ 25"
    using m' by simp
  have v: "(145 :: int) * 800 div 2000 = 58"
    by simp
  note t1 = valid_contour_min_area [of c_band 57 10 3 4 12 "Config_default\<lparr>min_area := 80\<rparr>" 145 800]
  note t2 = valid_contour_min_area [of c_smear 57 1 1 9 1 Config_default 145 800]
  have i1: "validContours c_band 57 \<longleftrightarrow>
      of_int 57 \<le> contourArea c_band \<and> (12 :: int) \<noteq> 0 \<and> 5 * (4 :: int) \<le> 2 * 12"
    using t1 b by blast
  have i2: "validContours c_smear 57 \<longleftrightarrow>
      of_int 57 \<le> contourArea c_smear \<and> (1 :: int) \<noteq> 0 \<and> 5 * (9 :: int) \<le> 2 * 1"
    using t2 s by blast
  have i3: "estimate_min_area 145 800 (Config_default\<lparr>min_area := 80\<rparr>) =
      min_area (Config_default\<lparr>min_area := 80\<rparr>)"
    using t1 m by blast
  have i4: "\<exists>a. estimate_min_area 145 800 Config_default = max 50 a \<and>
      145 * 800 div 2000 - 1 \<le> a \<and> a \<le> 145 * 800 div 2000"
    using t2 d by blast
  have "validContours c_band 57"
    unfolding i1 by (simp add: ab)
  moreover have "\<not> validContours c_smear 57"
    unfolding i2 by simp
  moreover have "estimate_min_area 145 800 (Config_default\<lparr>min_area := 80\<rparr>) = 80"
    unfolding i3 by simp
  moreover have "\<exists>a. estimate_min_area 145 800 Config_default = max 50 a \<and> 57 \<le> a \<and> a \<le> 58"
    using i4 by simp
  ultimately show ?thesis
    using b s m m' by blast
qed

section \<open>Resizing\<close>

lemma preprocess_value:
  "preprocess 800 1129 Config_default =
     Inr ([Resize 899 637, GaussianBlur 7 7, CvtColor_BGR2GRAY, CvtColor_BGR2HSV, Threshold_Otsu,
           Bitwise_not], 637, 899)"
  by code_simp

text \<open>
  Claim C9 says that an image whose longer side exceeds a positive \<^verbatim>\<open>max_dim\<close> is resized
  so that its longer side equals \<^verbatim>\<open>max_dim\<close>. With the default 900 and an image of 800 rows
  and 1129 columns the requested size is 899 by 637.
\<close>

theorem resize_counterexample:
  "0 < max_dim Config_default \<and> max_dim Config_default < max 800 1129 \<and>
   preprocess 800 1129 Config_default =
     Inr ([Resize 899 637, GaussianBlur 7 7, CvtColor_BGR2GRAY, CvtColor_BGR2HSV, Threshold_Otsu,
           Bitwise_not], 637, 899) \<and>
   max (637 :: int) 899 \<noteq> max_dim Config_default"
  by (simp add: preprocess_value) (simp add: Config_default_def)

text \<open>
  Claim C9, amended. When \<^verbatim>\<open>max_dim\<close> is positive and the longer side exceeds it, the image
  is resized once, with area interpolation, to sides that are each
  \<open>\<lfloor>side \<times> max_dim / longer side\<rfloor>\<close> or one less: the longer side becomes \<^verbatim>\<open>max_dim\<close> or
  \<^verbatim>\<open>max_dim - 1\<close> and the aspect ratio is kept up to that rounding (sides below \<open>2 ^ 25\<close>).
  When \<^verbatim>\<open>max_dim\<close> is 0 or the longer side does not exceed it, nothing is resized and the
  shape is unchanged.
\<close>

theorem resize_dimensions:
  "(0 < max_dim cfg \<and> max_dim cfg < max h w \<and> 0 \<le> h \<and> 0 \<le> w \<and> max h w < 2 ^ 25 \<longrightarrow>
      (\<exists>calls h' w'.
         preprocess h w cfg = Inr (Resize w' h' # calls, h', w') \<and>
         (\<forall>a b. Resize a b \<notin> set calls) \<and>
         h * max_dim cfg div max h w - 1 \<le> h' \<and> h' \<le> h * max_dim cfg div max h w \<and>
         w * max_dim cfg div max h w - 1 \<le> w' \<and> w' \<le> w * max_dim cfg div max h w \<and>
         max_dim cfg - 1 \<le> max h' w' \<and> max h' w' \<le> max_dim cfg)) \<and>
   (max_dim cfg = 0 \<or> max h w \<le> max_dim cfg \<longrightarrow>
      (\<exists>calls. preprocess h w cfg = Inr (calls, h, w) \<and> (\<forall>a b. Resize a b \<notin> set calls)))"
proof (intro conjI impI)
  assume a: "0 < max_dim cfg \<and> max_dim cfg < max h w \<and> 0 \<le> h \<and> 0 \<le> w \<and> max h w < 2 ^ 25"
  define md where "md = max_dim cfg"
  define M where "M = max h w"
  define scale where "scale = float_quot (py_float md) (py_float M)"
  define w' where "w' = int_of_float (float_mul (py_float w) scale)"
  define h' where "h' = int_of_float (float_mul (py_float h) scale)"
  define tail where "tail =
     (if blur cfg = ''bilateral'' then
        [BilateralFilter (bilateral_d cfg) (bilateral_sigma_color cfg) (bilateral_sigma_space cfg)]
      else [GaussianBlur (max 3 (gaussian_ksize cfg OR 1)) (max 3 (gaussian_ksize cfg OR 1))]) @
     [CvtColor_BGR2GRAY, CvtColor_BGR2HSV] @
     (if use_adaptive cfg then
        [AdaptiveThreshold (max 3 (adaptive_block_size cfg OR 1)) (adaptive_C cfg)]
      else [Threshold_Otsu]) @
     [Bitwise_not]"
  have md: "0 < md" "md < M" and M: "M < 2 ^ 25" and hw: "0 \<le> h" "h \<le> M" "0 \<le> w" "w \<le> M"
    using a by (simp_all add: md_def M_def)
  have "0 \<le> M" and "M < 2 ^ 53"
    using md M by simp_all
  then have "py_float M = of_int M"
    by (rule py_float_exact)
  then have nz: "py_float M \<noteq> 0"
    using md by simp
  have p: "preprocess h w cfg = Inr (Resize w' h' # tail, h', w')"
    using md nz
    by (simp add: preprocess_def Let_def py_truediv_def md_def [symmetric] M_def [symmetric]
        scale_def [symmetric] w'_def [symmetric] h'_def [symmetric] tail_def)
  have t: "\<forall>a b. Resize a b \<notin> set tail"
    by (simp add: tail_def)
  have bh: "h * md div M - 1 \<le> h' \<and> h' \<le> h * md div M"
    unfolding h'_def scale_def using md M hw by (intro scaled_side) simp_all
  have bw: "w * md div M - 1 \<le> w' \<and> w' \<le> w * md div M"
    unfolding w'_def scale_def using md M hw by (intro scaled_side) simp_all
  have M0: "0 < M"
    using md by simp
  have e: "M * md div M = md"
    using M0 by simp
  have "h * md \<le> M * md"
    using hw md by (simp add: mult_right_mono)
  then have "h * md div M \<le> M * md div M"
    using M0 by (rule zdiv_mono1)
  then have le1: "h * md div M \<le> md"
    by (simp only: e)
  have "w * md \<le> M * md"
    using hw md by (simp add: mult_right_mono)
  then have "w * md div M \<le> M * md div M"
    using M0 by (rule zdiv_mono1)
  then have le2: "w * md div M \<le> md"
    by (simp only: e)
  note le = le1 le2
  have "h = M \<or> w = M"
    by (auto simp: M_def max_def)
  then have "h * md div M = md \<or> w * md div M = md"
    using e by auto
  then have mx: "md - 1 \<le> max h' w' \<and> max h' w' \<le> md"
    using bh bw le by (auto simp: max_def)
  show "\<exists>calls h' w'.
         preprocess h w cfg = Inr (Resize w' h' # calls, h', w') \<and>
         (\<forall>a b. Resize a b \<notin> set calls) \<and>
         h * max_dim cfg div max h w - 1 \<le> h' \<and> h' \<le> h * max_dim cfg div max h w \<and>
         w * max_dim cfg div max h w - 1 \<le> w' \<and> w' \<le> w * max_dim cfg div max h w \<and>
         max_dim cfg - 1 \<le> max h' w' \<and> max h' w' \<le> max_dim cfg"
    using p t bh bw mx unfolding md_def M_def by blast
next
  assume a: "max_dim cfg = 0 \<or> max h w \<le> max_dim cfg"
  define tail where "tail =
     (if blur cfg = ''bilateral'' then
        [BilateralFilter (bilateral_d cfg) (bilateral_sigma_color cfg) (bilateral_sigma_space cfg)]
      else [GaussianBlur (max 3 (gaussian_ksize cfg OR 1)) (max 3 (gaussian_ksize cfg OR 1))]) @
     [CvtColor_BGR2GRAY, CvtColor_BGR2HSV] @
     (if use_adaptive cfg then
        [AdaptiveThreshold (max 3 (adaptive_block_size cfg OR 1)) (adaptive_C cfg)]
      else [Threshold_Otsu]) @
     [Bitwise_not]"
  have c: "\<not> (max_dim cfg \<noteq> 0 \<and> max h w > max_dim cfg)"
    using a by auto
  have "preprocess h w cfg = Inr (tail, h, w)"
    unfolding preprocess_def if_not_P [OF c] by (simp add: Let_def tail_def)
  moreover have "\<forall>a b. Resize a b \<notin> set tail"
    by (simp add: tail_def)
  ultimately show "\<exists>calls. preprocess h w cfg = Inr (calls, h, w) \<and> (\<forall>a b. Resize a b \<notin> set calls)"
    by blast
qed

theorem resize_dimensions_witness:
  "0 < max_dim Config_default \<and> max_dim Config_default < max 800 1129 \<and>
   (\<exists>calls h' w'.
      preprocess 800 1129 Config_default = Inr (Resize w' h' # calls, h', w') \<and>
      636 \<le> h' \<and> h' \<le> 637 \<and> 899 \<le> w' \<and> w' \<le> 900 \<and> 899 \<le> max h' w' \<and> max h' w' \<le> 900) \<and>
   max 600 800 \<le> max_dim Config_default \<and>
   (\<exists>calls. preprocess 600 800 Config_default = Inr (calls, 600, 800)) \<and>
   max_dim (Config_default\<lparr>max_dim := 0\<rparr>) = 0 \<and>
   (\<exists>calls. preprocess 800 1129 (Config_default\<lparr>max_dim := 0\<rparr>) = Inr (calls, 800, 1129))"
proof -
  have c: "max_dim Config_default = 900" and z: "max_dim (Config_default\<lparr>max_dim := 0\<rparr>) = 0"
    by (simp_all add: Config_default_def)
  have v: "(800 :: int) * 900 div 1129 = 637" "(1129 :: int) * 900 div 1129 = 900" "max (800 :: int) 1129 = 1129"
    by simp_all
  have a1: "0 < max_dim Config_default \<and> max_dim Config_default < max 800 1129 \<and> (0 :: int) \<le> 800 \<and>
      (0 :: int) \<le> 1129 \<and> max (800 :: int) 1129 < 2 ^ 25"
    by (simp add: c)
  have a2: "max_dim Config_default = 0 \<or> max 600 800 \<le> max_dim Config_default"
    by (simp add: c)
  have a3: "max_dim (Config_default\<lparr>max_dim := 0\<rparr>) = 0 \<or>
      max 800 1129 \<le> max_dim (Config_default\<lparr>max_dim := 0\<rparr>)"
    by (simp add: z)
  have "\<exists>calls h' w'.
      preprocess 800 1129 Config_default = Inr (Resize w' h' # calls, h', w') \<and>
      636 \<le> h' \<and> h' \<le> 637 \<and> 899 \<le> w' \<and> w' \<le> 900 \<and> 899 \<le> max h' w' \<and> max h' w' \<le> 900"
    using resize_dimensions [of Config_default 800 1129] a1 unfolding v c by auto
  moreover have "\<exists>calls. preprocess 600 800 Config_default = Inr (calls, 600, 800)"
    using resize_dimensions [of Config_default 600 800] a2 by blast
  moreover have "\<exists>calls. preprocess 800 1129 (Config_default\<lparr>max_dim := 0\<rparr>) = Inr (calls, 800, 1129)"
    using resize_dimensions [of "Config_default\<lparr>max_dim := 0\<rparr>" 800 1129] a3 by blast
  ultimately show ?thesis
    using a1 a2 z c by simp
qed

end
